theory Spec2Isabelle
  imports Main "HOL-Library.Monad_Syntax"
begin

unbundle bit_operations_syntax

section \<open>Sum of positive pairwise differences: the embedded program\<close>

text \<open>
  Python integers are unbounded, so every integer of the program is an \<open>int\<close>.
  A function of the program that can raise (IndexError, KeyError, ValueError) or loop
  forever returns an \<open>option\<close>: \<open>None\<close> stands for "no value is returned".
\<close>

subsection \<open>Python list indexing\<close>

text \<open>
  The position that the index \<open>i\<close> denotes in a list of \<open>n\<close> elements: \<open>i\<close> itself
  from 0 to \<open>n - 1\<close>, \<open>n + i\<close> for a negative \<open>i\<close> down to \<open>-n\<close>; any other index
  raises IndexError.
\<close>

definition list_index :: "nat \<Rightarrow> int \<Rightarrow> nat option" where
  "list_index n i =
     (if 0 \<le> i \<and> i < int n then Some (nat i)
      else if - int n \<le> i \<and> i < 0 then Some (nat (int n + i))
      else None)"

text \<open>The read \<open>xs[i]\<close> and the update \<open>xs[i] += d\<close>.\<close>

definition list_get :: "int list \<Rightarrow> int \<Rightarrow> int option" where
  "list_get xs i = map_option (\<lambda>j. xs ! j) (list_index (length xs) i)"

definition list_add :: "int list \<Rightarrow> int \<Rightarrow> int \<Rightarrow> int list option" where
  "list_add xs i d = map_option (\<lambda>j. xs[j := xs ! j + d]) (list_index (length xs) i)"

subsection \<open>The lowest set bit\<close>

text \<open>The expression \<open>idx & (-idx)\<close> of every update and query loop.\<close>

definition lowbit :: "int \<Rightarrow> int" where
  "lowbit idx = idx AND (- idx)"

subsection \<open>complete_solution.py: class FenwickTree\<close>

record FenwickTree =
  size_ft :: int
  count_tree :: "int list"
  sum_tree :: "int list"

text \<open>\<open>__init__\<close>: both arrays are \<open>[0] * (size + 1)\<close> (empty when \<open>size + 1 \<le> 0\<close>).\<close>

definition FenwickTree_init :: "int \<Rightarrow> FenwickTree" where
  "FenwickTree_init sz =
     \<lparr>size_ft = sz,
      count_tree = replicate (nat (sz + 1)) 0,
      sum_tree = replicate (nat (sz + 1)) 0\<rparr>"

text \<open>
  \<open>update\<close>: \<open>while idx <= self.size\<close>, add one to the count cell and \<open>val\<close> to the sum
  cell, then step to \<open>idx + (idx & -idx)\<close>. For \<open>idx = 0\<close> the Python loop never ends.
\<close>

partial_function (option) FenwickTree_update ::
  "FenwickTree \<Rightarrow> int \<Rightarrow> int \<Rightarrow> FenwickTree option" where
  "FenwickTree_update ft idx val =
     (if idx \<le> size_ft ft then
        do {
          ct \<leftarrow> list_add (count_tree ft) idx 1;
          st \<leftarrow> list_add (sum_tree ft) idx val;
          FenwickTree_update (ft\<lparr>count_tree := ct, sum_tree := st\<rparr>) (idx + lowbit idx) val
        }
      else Some ft)"

declare FenwickTree_update.simps [code]

text \<open>
  The loop shared by \<open>query_count\<close> and \<open>query_sum\<close>: \<open>while idx > 0\<close>, add the cell at
  \<open>idx\<close> to the accumulator and step to \<open>idx - (idx & -idx)\<close>.
\<close>

partial_function (option) query_loop :: "int list \<Rightarrow> int \<Rightarrow> int \<Rightarrow> int option" where
  "query_loop tree idx acc =
     (if idx > 0 then
        do {
          c \<leftarrow> list_get tree idx;
          query_loop tree (idx - lowbit idx) (acc + c)
        }
      else Some acc)"

declare query_loop.simps [code]

definition FenwickTree_query_count :: "FenwickTree \<Rightarrow> int \<Rightarrow> int option" where
  "FenwickTree_query_count ft idx = query_loop (count_tree ft) idx 0"

definition FenwickTree_query_sum :: "FenwickTree \<Rightarrow> int \<Rightarrow> int option" where
  "FenwickTree_query_sum ft idx = query_loop (sum_tree ft) idx 0"

subsection \<open>complete_solution.py: the naive reference\<close>

text \<open>The double loop over \<open>i\<close> in \<open>range(n)\<close> and \<open>j\<close> in \<open>range(i + 1, n)\<close>.\<close>

definition calculate_positive_differences_naive :: "int list \<Rightarrow> int" where
  "calculate_positive_differences_naive arr =
     (let n = length arr in
      foldl (\<lambda>total_sum i.
          foldl (\<lambda>total_sum j.
              let diff = arr ! j - arr ! i
              in if diff > 0 then total_sum + diff else total_sum)
            total_sum [i + 1..<n])
        0 [0..<n])"

subsection \<open>complete_solution.py: the rank-compressed aggregation\<close>

text \<open>
  The dictionary comprehension \<open>{v: i + 1 for i, v in enumerate(sorted_values)}\<close>: the
  entries are stored in order, a later entry for the same key would replace an earlier one.
\<close>

definition value_to_rank_of :: "int list \<Rightarrow> (int \<rightharpoonup> int)" where
  "value_to_rank_of sorted_values =
     foldl (\<lambda>m (i, v). m(v \<mapsto> int i + 1)) Map.empty (enumerate 0 sorted_values)"

text \<open>
  One iteration of the \<open>for j in range(n)\<close> loop: the rank lookup (a missing key raises
  KeyError), the two prefix queries at \<open>current_rank - 1\<close> when \<open>current_rank > 1\<close>,
  the contribution, and the insertion.
\<close>

definition aggregate_step ::
  "(int \<rightharpoonup> int) \<Rightarrow> FenwickTree \<times> int \<Rightarrow> int \<Rightarrow> (FenwickTree \<times> int) option" where
  "aggregate_step value_to_rank s current_val =
     (case s of (ft, total_sum) \<Rightarrow>
      do {
        current_rank \<leftarrow> value_to_rank current_val;
        total_sum' \<leftarrow>
          (if current_rank > 1 then
             do {
               smaller_count \<leftarrow> FenwickTree_query_count ft (current_rank - 1);
               smaller_sum \<leftarrow> FenwickTree_query_sum ft (current_rank - 1);
               let contribution = current_val * smaller_count - smaller_sum;
               Some (total_sum + contribution)
             }
           else Some total_sum);
        ft' \<leftarrow> FenwickTree_update ft current_rank current_val;
        Some (ft', total_sum')
      })"

fun aggregate_loop ::
  "(int \<rightharpoonup> int) \<Rightarrow> FenwickTree \<times> int \<Rightarrow> int list \<Rightarrow> (FenwickTree \<times> int) option" where
  "aggregate_loop value_to_rank s [] = Some s"
| "aggregate_loop value_to_rank s (current_val # rest) =
     do {
       s' \<leftarrow> aggregate_step value_to_rank s current_val;
       aggregate_loop value_to_rank s' rest
     }"

definition calculate_positive_differences_optimized :: "int list \<Rightarrow> int option" where
  "calculate_positive_differences_optimized arr =
     (let n = length arr in
      if n \<le> 1 then Some 0
      else
        let sorted_values = sorted_list_of_set (set arr);
            value_to_rank = value_to_rank_of sorted_values;
            ft = FenwickTree_init (int (length sorted_values))
        in map_option snd (aggregate_loop value_to_rank (ft, 0) arr))"

subsection \<open>optimized_sum_algorithm.py: calculate_with_coordinate_compression\<close>

text \<open>
  The function declares a local class \<open>FenwickTree\<close> whose three methods are, statement
  for statement, those of \<open>complete_solution.py\<close>, and then runs the same pass.
\<close>

definition calculate_with_coordinate_compression :: "int list \<Rightarrow> int option" where
  "calculate_with_coordinate_compression arr =
     (let n = length arr in
      if n \<le> 1 then Some 0
      else
        let sorted_values = sorted_list_of_set (set arr);
            value_to_rank = value_to_rank_of sorted_values;
            ft = FenwickTree_init (int (length sorted_values))
        in map_option snd (aggregate_loop value_to_rank (ft, 0) arr))"

subsection \<open>complete_solution.py: the call on a heap of list objects\<close>

text \<open>
  Python lists are objects: the caller and the function hold references to them, and
  \<open>xs[i] += d\<close> changes the object that every holder of the reference sees. Here the
  heap is the list of all list objects, a reference is a position in it, a new object is
  appended, and an access through a reference that names no object fails.
\<close>

type_synonym heap = "int list list"

definition heap_new :: "heap \<Rightarrow> int list \<Rightarrow> nat \<times> heap" where
  "heap_new h xs = (length h, h @ [xs])"

definition heap_get :: "heap \<Rightarrow> nat \<Rightarrow> int \<Rightarrow> int option" where
  "heap_get h a i = (if a < length h then list_get (h ! a) i else None)"

definition heap_add :: "heap \<Rightarrow> nat \<Rightarrow> int \<Rightarrow> int \<Rightarrow> heap option" where
  "heap_add h a i d =
     (if a < length h then map_option (\<lambda>xs. h[a := xs]) (list_add (h ! a) i d) else None)"

text \<open>
  A \<open>FenwickTree\<close> instance holds its size and the references to its two arrays;
  \<open>__init__\<close> creates the two arrays.
\<close>

record FenwickTree_ref =
  size_ref :: int
  count_tree_ref :: nat
  sum_tree_ref :: nat

definition FenwickTree_new :: "heap \<Rightarrow> int \<Rightarrow> FenwickTree_ref \<times> heap" where
  "FenwickTree_new h sz =
     (let (c, h1) = heap_new h (replicate (nat (sz + 1)) 0);
          (s, h2) = heap_new h1 (replicate (nat (sz + 1)) 0)
      in (\<lparr>size_ref = sz, count_tree_ref = c, sum_tree_ref = s\<rparr>, h2))"

partial_function (option) update_heap ::
  "FenwickTree_ref \<Rightarrow> heap \<Rightarrow> int \<Rightarrow> int \<Rightarrow> heap option" where
  "update_heap ft h idx val =
     (if idx \<le> size_ref ft then
        do {
          h1 \<leftarrow> heap_add h (count_tree_ref ft) idx 1;
          h2 \<leftarrow> heap_add h1 (sum_tree_ref ft) idx val;
          update_heap ft h2 (idx + lowbit idx) val
        }
      else Some h)"

declare update_heap.simps [code]

partial_function (option) query_heap :: "heap \<Rightarrow> nat \<Rightarrow> int \<Rightarrow> int \<Rightarrow> int option" where
  "query_heap h a idx acc =
     (if idx > 0 then
        do {
          c \<leftarrow> heap_get h a idx;
          query_heap h a (idx - lowbit idx) (acc + c)
        }
      else Some acc)"

declare query_heap.simps [code]

text \<open>One iteration of the pass, and the pass over the indices \<open>range(n)\<close>, reading \<open>arr[j]\<close>.\<close>

definition step_heap ::
  "(int \<rightharpoonup> int) \<Rightarrow> FenwickTree_ref \<Rightarrow> heap \<times> int \<Rightarrow> int \<Rightarrow> (heap \<times> int) option" where
  "step_heap value_to_rank ft s current_val =
     (case s of (h, total_sum) \<Rightarrow>
      do {
        current_rank \<leftarrow> value_to_rank current_val;
        total_sum' \<leftarrow>
          (if current_rank > 1 then
             do {
               smaller_count \<leftarrow> query_heap h (count_tree_ref ft) (current_rank - 1) 0;
               smaller_sum \<leftarrow> query_heap h (sum_tree_ref ft) (current_rank - 1) 0;
               let contribution = current_val * smaller_count - smaller_sum;
               Some (total_sum + contribution)
             }
           else Some total_sum);
        h' \<leftarrow> update_heap ft h current_rank current_val;
        Some (h', total_sum')
      })"

fun pass_heap ::
  "(int \<rightharpoonup> int) \<Rightarrow> FenwickTree_ref \<Rightarrow> nat \<Rightarrow> heap \<times> int \<Rightarrow> nat list \<Rightarrow> (heap \<times> int) option" where
  "pass_heap value_to_rank ft arr s [] = Some s"
| "pass_heap value_to_rank ft arr s (j # js) =
     do {
       current_val \<leftarrow> heap_get (fst s) arr (int j);
       s' \<leftarrow> step_heap value_to_rank ft s current_val;
       pass_heap value_to_rank ft arr s' js
     }"

text \<open>
  The call: \<open>arr\<close> is the caller's reference. \<open>len(arr)\<close> and \<open>set(arr)\<close> read the
  object, \<open>sorted\<close> creates a new list, the dictionary is built from it, and the tree
  creates its two arrays. The function returns its result; the heap it leaves is returned
  with it.
\<close>

definition calculate_positive_differences_optimized_heap ::
  "heap \<Rightarrow> nat \<Rightarrow> (int \<times> heap) option" where
  "calculate_positive_differences_optimized_heap h arr =
     (if arr < length h then
        (let n = length (h ! arr) in
         if n \<le> 1 then Some (0, h)
         else
           let (sorted_values, h1) = heap_new h (sorted_list_of_set (set (h ! arr)));
               value_to_rank = value_to_rank_of (h1 ! sorted_values);
               (ft, h2) = FenwickTree_new h1 (int (length (h1 ! sorted_values)))
           in map_option (\<lambda>s. (snd s, fst s))
                (pass_heap value_to_rank ft arr (h2, 0) [0..<n]))
      else None)"

subsection \<open>simple_memory_optimized.py: the local functions update_tree and query_tree\<close>

text \<open>
  \<open>update_tree\<close> is, statement for statement, \<open>FenwickTree.update\<close> on the two local
  arrays with \<open>max_rank\<close> as the size. \<open>query_tree\<close> walks both arrays in one loop and
  returns the pair \<open>(count, sum_val)\<close>.
\<close>

partial_function (option) query_tree_loop ::
  "FenwickTree \<Rightarrow> int \<Rightarrow> int \<times> int \<Rightarrow> (int \<times> int) option" where
  "query_tree_loop ft idx acc =
     (if idx > 0 then
        do {
          c \<leftarrow> list_get (count_tree ft) idx;
          s \<leftarrow> list_get (sum_tree ft) idx;
          query_tree_loop ft (idx - lowbit idx) (fst acc + c, snd acc + s)
        }
      else Some acc)"

declare query_tree_loop.simps [code]

definition query_tree :: "FenwickTree \<Rightarrow> int \<Rightarrow> (int \<times> int) option" where
  "query_tree ft idx = query_tree_loop ft idx (0, 0)"

subsection \<open>memory_optimized_solution.py: class CompactFenwickTree\<close>

text \<open>
  The two trees are \<open>defaultdict(int)\<close>: reading a key that is absent gives 0 (and
  stores it), and the code never asks whether a key is present. A tree is therefore the
  function from a key to its value, 0 at the absent keys.
\<close>

record CompactFenwickTree =
  count_tree_c :: "int \<Rightarrow> int"
  sum_tree_c :: "int \<Rightarrow> int"
  max_idx :: int

definition CompactFenwickTree_init :: CompactFenwickTree where
  "CompactFenwickTree_init = \<lparr>count_tree_c = (\<lambda>_. 0), sum_tree_c = (\<lambda>_. 0), max_idx = 0\<rparr>"

text \<open>The loop of \<open>update\<close>: \<open>while idx > 0 and idx <= self.max_idx + 1000\<close>.\<close>

partial_function (option) compact_update_loop ::
  "CompactFenwickTree \<Rightarrow> int \<Rightarrow> int \<Rightarrow> CompactFenwickTree option" where
  "compact_update_loop ft idx val =
     (if idx > 0 \<and> idx \<le> max_idx ft + 1000 then
        compact_update_loop
          (ft\<lparr>count_tree_c := (count_tree_c ft)(idx := count_tree_c ft idx + 1),
              sum_tree_c := (sum_tree_c ft)(idx := sum_tree_c ft idx + val)\<rparr>)
          (idx + lowbit idx) val
      else Some ft)"

declare compact_update_loop.simps [code]

text \<open>\<open>update\<close>: first \<open>self.max_idx = max(self.max_idx, idx)\<close>, then the loop.\<close>

definition CompactFenwickTree_update ::
  "CompactFenwickTree \<Rightarrow> int \<Rightarrow> int \<Rightarrow> CompactFenwickTree option" where
  "CompactFenwickTree_update ft idx val =
     compact_update_loop (ft\<lparr>max_idx := max (max_idx ft) idx\<rparr>) idx val"

partial_function (option) compact_query_loop :: "(int \<Rightarrow> int) \<Rightarrow> int \<Rightarrow> int \<Rightarrow> int option" where
  "compact_query_loop tree idx acc =
     (if idx > 0 then compact_query_loop tree (idx - lowbit idx) (acc + tree idx)
      else Some acc)"

declare compact_query_loop.simps [code]

definition CompactFenwickTree_query_count :: "CompactFenwickTree \<Rightarrow> int \<Rightarrow> int option" where
  "CompactFenwickTree_query_count ft idx = compact_query_loop (count_tree_c ft) idx 0"

definition CompactFenwickTree_query_sum :: "CompactFenwickTree \<Rightarrow> int \<Rightarrow> int option" where
  "CompactFenwickTree_query_sum ft idx = compact_query_loop (sum_tree_c ft) idx 0"

text \<open>\<open>clear_unused\<close> rebuilds both dictionaries from the items whose value is not 0.\<close>

definition clear_unused :: "CompactFenwickTree \<Rightarrow> CompactFenwickTree" where
  "clear_unused ft =
     ft\<lparr>count_tree_c := (\<lambda>k. if count_tree_c ft k \<noteq> 0 then count_tree_c ft k else 0),
        sum_tree_c := (\<lambda>k. if sum_tree_c ft k \<noteq> 0 then sum_tree_c ft k else 0)\<rparr>"

subsection \<open>memory_optimized_solution.py: the memory-optimized pass\<close>

text \<open>
  \<open>get_unique_values_streaming\<close>: the values are added to a set one by one, sorted, and
  ranked; the second result is the number of keys of the dictionary.
\<close>

definition get_unique_values_streaming :: "int list \<Rightarrow> (int \<rightharpoonup> int) \<times> nat" where
  "get_unique_values_streaming arr =
     (let unique_values = foldl (\<lambda>s val. insert val s) {} arr;
          sorted_values = sorted_list_of_set unique_values;
          value_to_rank = value_to_rank_of sorted_values
      in (value_to_rank, length (remdups sorted_values)))"

definition compact_step ::
  "(int \<rightharpoonup> int) \<Rightarrow> CompactFenwickTree \<times> int \<Rightarrow> int \<Rightarrow> (CompactFenwickTree \<times> int) option" where
  "compact_step value_to_rank s current_val =
     (case s of (ft, total_sum) \<Rightarrow>
      do {
        current_rank \<leftarrow> value_to_rank current_val;
        total_sum' \<leftarrow>
          (if current_rank > 1 then
             do {
               smaller_count \<leftarrow> CompactFenwickTree_query_count ft (current_rank - 1);
               smaller_sum \<leftarrow> CompactFenwickTree_query_sum ft (current_rank - 1);
               let contribution = current_val * smaller_count - smaller_sum;
               Some (total_sum + contribution)
             }
           else Some total_sum);
        ft' \<leftarrow> CompactFenwickTree_update ft current_rank current_val;
        Some (ft', total_sum')
      })"

fun compact_loop ::
  "(int \<rightharpoonup> int) \<Rightarrow> CompactFenwickTree \<times> int \<Rightarrow> int list \<Rightarrow> (CompactFenwickTree \<times> int) option" where
  "compact_loop value_to_rank s [] = Some s"
| "compact_loop value_to_rank s (current_val # rest) =
     do {
       s' \<leftarrow> compact_step value_to_rank s current_val;
       compact_loop value_to_rank s' rest
     }"

text \<open>
  The batches \<open>for batch_start in range(0, n, batch_size)\<close>: the inner loop runs over
  \<open>arr[batch_start:batch_end]\<close>, and \<open>clear_unused\<close> is called after every fifth batch.
  \<open>range\<close> with step 0 raises ValueError.
\<close>

function batch_loop ::
  "(int \<rightharpoonup> int) \<Rightarrow> int list \<Rightarrow> nat \<Rightarrow> nat \<Rightarrow> CompactFenwickTree \<times> int \<Rightarrow>
     (CompactFenwickTree \<times> int) option" where
  "batch_loop value_to_rank arr batch_size batch_start s =
     (if batch_size = 0 then None
      else if batch_start < length arr then
        (let batch_end = min (batch_start + batch_size) (length arr) in
         case compact_loop value_to_rank s (take (batch_end - batch_start) (drop batch_start arr)) of
           None \<Rightarrow> None
         | Some (ft, total_sum) \<Rightarrow>
             batch_loop value_to_rank arr batch_size (batch_start + batch_size)
               (if batch_start mod (batch_size * 5) = 0 then clear_unused ft else ft, total_sum))
      else Some s)"
  by pat_completeness auto
termination
  by (relation "measure (\<lambda>(vr, arr, batch_size, batch_start, s). length arr - batch_start)") auto

definition calculate_positive_differences_memory_optimized :: "int list \<Rightarrow> int option" where
  "calculate_positive_differences_memory_optimized arr =
     (let n = length arr in
      if n \<le> 1 then Some 0
      else
        let (value_to_rank, unique_count) = get_unique_values_streaming arr;
            ft = CompactFenwickTree_init;
            batch_size = min 10000 (n div 10 + 1)
        in map_option snd (batch_loop value_to_rank arr batch_size 0 (ft, 0)))"

subsection \<open>memory_optimized_solution.py: the chunked variant\<close>

text \<open>
  One chunk \<open>arr[i:chunk_end]\<close>: its own sum by the memory-optimized function, then the
  double loop over \<open>j\<close> in \<open>range(chunk_end, n)\<close> and \<open>k\<close> in \<open>range(i, chunk_end)\<close>.
  The progress line printed after each chunk is not modelled.
\<close>

function chunk_loop :: "int list \<Rightarrow> nat \<Rightarrow> nat \<Rightarrow> int \<Rightarrow> int option" where
  "chunk_loop arr chunk_size i total_sum =
     (if chunk_size = 0 then None
      else if i < length arr then
        (let n = length arr;
             chunk_end = min (i + chunk_size) n;
             chunk = take (chunk_end - i) (drop i arr)
         in case calculate_positive_differences_memory_optimized chunk of
              None \<Rightarrow> None
            | Some chunk_sum \<Rightarrow>
                chunk_loop arr chunk_size (i + chunk_size)
                  (foldl (\<lambda>total_sum j.
                      foldl (\<lambda>total_sum k.
                          let diff = arr ! j - arr ! k
                          in if diff > 0 then total_sum + diff else total_sum)
                        total_sum [i..<chunk_end])
                    (total_sum + chunk_sum) [chunk_end..<n]))
      else Some total_sum)"
  by pat_completeness auto
termination
  by (relation "measure (\<lambda>(arr, chunk_size, i, total_sum). length arr - i)") auto

text \<open>
  \<open>chunk_size\<close> is any Python integer: with \<open>n > chunk_size\<close>, a step of 0 makes
  \<open>range\<close> raise, and a negative step makes \<open>range(0, n, chunk_size)\<close> empty.
\<close>

definition calculate_positive_differences_chunked :: "int list \<Rightarrow> int \<Rightarrow> int option" where
  "calculate_positive_differences_chunked arr chunk_size =
     (let n = length arr in
      if int n \<le> chunk_size then calculate_positive_differences_memory_optimized arr
      else if chunk_size = 0 then None
      else if chunk_size < 0 then Some 0
      else chunk_loop arr (nat chunk_size) 0 0)"

section \<open>Notions used to state and prove the properties\<close>

text \<open>
  The sum the program is to compute, in the words of the specification: the sum, over
  all index pairs \<open>i < j\<close> with \<open>a[j] > a[i]\<close>, of \<open>a[j] - a[i]\<close>.
\<close>

definition positive_difference_sum :: "int list \<Rightarrow> int" where
  "positive_difference_sum a =
     (\<Sum>j<length a. \<Sum>i<j. if a ! j > a ! i then a ! j - a ! i else 0)"

text \<open>
  A Fenwick tree over an array \<open>a\<close>: the cell \<open>j\<close> holds the sum of \<open>a\<close> over the
  \<open>lowbit j\<close> indices that end at \<open>j\<close>. \<open>fen_inv B t a\<close> says so for the cells
  \<open>1..B\<close> of the tree \<open>t\<close> (a function from the cell index to its content), and
  \<open>fen_part B t a d p c\<close> describes the tree in the middle of an update that adds \<open>d\<close>
  at position \<open>p\<close> and has reached the cell \<open>c\<close>: the cells below \<open>c\<close> that cover
  \<open>p\<close> have received \<open>d\<close>, the others not yet.
\<close>

definition cover :: "int \<Rightarrow> int set" where
  "cover j = {j - lowbit j <.. j}"

definition fen_inv :: "int \<Rightarrow> (int \<Rightarrow> int) \<Rightarrow> (int \<Rightarrow> int) \<Rightarrow> bool" where
  "fen_inv B t a \<longleftrightarrow> (\<forall>j. 1 \<le> j \<and> j \<le> B \<longrightarrow> t j = (\<Sum>i\<in>cover j. a i))"

definition fen_part :: "int \<Rightarrow> (int \<Rightarrow> int) \<Rightarrow> (int \<Rightarrow> int) \<Rightarrow> int \<Rightarrow> int \<Rightarrow> int \<Rightarrow> bool" where
  "fen_part B t a d p c \<longleftrightarrow>
     (\<forall>j. 1 \<le> j \<and> j \<le> B \<longrightarrow>
        t j = (\<Sum>i\<in>cover j. a i) + (if j < c \<and> p \<in> cover j then d else 0))"

definition dense_inv :: "int \<Rightarrow> FenwickTree \<Rightarrow> (int \<Rightarrow> int) \<Rightarrow> (int \<Rightarrow> int) \<Rightarrow> bool" where
  "dense_inv n ft a b \<longleftrightarrow>
     size_ft ft = n \<and> int (length (count_tree ft)) = n + 1 \<and> int (length (sum_tree ft)) = n + 1 \<and>
     fen_inv n (\<lambda>j. count_tree ft ! nat j) a \<and> fen_inv n (\<lambda>j. sum_tree ft ! nat j) b"

text \<open>
  The array a tree stands for after the values \<open>xs\<close> have been inserted at their ranks:
  \<open>bucket f vr xs r\<close> sums \<open>f x\<close> over the \<open>x\<close> of \<open>xs\<close> of rank \<open>r\<close> (\<open>f x = 1\<close>
  for the count tree, \<open>f x = x\<close> for the sum tree). \<open>rank_ok vr S k\<close>: the dictionary
  \<open>vr\<close> ranks every value of \<open>S\<close> in \<open>1..k\<close>, in the order of the values.
\<close>

definition bucket :: "('a \<Rightarrow> int) \<Rightarrow> ('a \<rightharpoonup> int) \<Rightarrow> 'a list \<Rightarrow> int \<Rightarrow> int" where
  "bucket f vr xs r = (\<Sum>x\<leftarrow>xs. if vr x = Some r then f x else 0)"

definition rank_ok :: "(int \<rightharpoonup> int) \<Rightarrow> int set \<Rightarrow> int \<Rightarrow> bool" where
  "rank_ok vr S k \<longleftrightarrow>
     (\<forall>v\<in>S. \<exists>r. vr v = Some r \<and> 1 \<le> r \<and> r \<le> k) \<and>
     (\<forall>u\<in>S. \<forall>v\<in>S. the (vr u) < the (vr v) \<longleftrightarrow> u < v)"

definition agg_inv :: "(int \<rightharpoonup> int) \<Rightarrow> int \<Rightarrow> FenwickTree \<Rightarrow> int list \<Rightarrow> bool" where
  "agg_inv vr k ft xs \<longleftrightarrow> dense_inv k ft (bucket (\<lambda>_. 1) vr xs) (bucket (\<lambda>x. x) vr xs)"

text \<open>
  The same for the dictionary-backed tree, on the cells \<open>1..B\<close> only (the cells the
  queries at ranks up to \<open>B\<close> read).
\<close>

definition cagg_inv :: "(int \<rightharpoonup> int) \<Rightarrow> int \<Rightarrow> CompactFenwickTree \<Rightarrow> int list \<Rightarrow> bool" where
  "cagg_inv vr B ft xs \<longleftrightarrow>
     fen_inv B (count_tree_c ft) (bucket (\<lambda>_. 1) vr xs) \<and>
     fen_inv B (sum_tree_c ft) (bucket (\<lambda>x. x) vr xs)"

text \<open>
  The dictionary and the initial state (the empty tree, total 0) with which
  \<open>calculate_positive_differences_optimized\<close> starts its pass over \<open>arr\<close>.
\<close>

abbreviation rank_dict :: "int list \<Rightarrow> (int \<rightharpoonup> int)" where
  "rank_dict arr \<equiv> value_to_rank_of (sorted_list_of_set (set arr))"

abbreviation initial_state :: "int list \<Rightarrow> FenwickTree \<times> int" where
  "initial_state arr \<equiv> (FenwickTree_init (int (length (sorted_list_of_set (set arr)))), 0)"

text \<open>
  The heap against the tree of the pure pass: \<open>tree_at h r ft\<close> says that the two
  arrays of the instance \<open>r\<close> are two different objects of \<open>h\<close> and hold the arrays of
  \<open>ft\<close>; \<open>same_outside r h h'\<close> says that \<open>h'\<close> has the objects of \<open>h\<close>, with the
  same contents except for the two arrays of \<open>r\<close>.
\<close>

definition tree_at :: "heap \<Rightarrow> FenwickTree_ref \<Rightarrow> FenwickTree \<Rightarrow> bool" where
  "tree_at h r ft \<longleftrightarrow>
     count_tree_ref r < length h \<and> sum_tree_ref r < length h \<and>
     count_tree_ref r \<noteq> sum_tree_ref r \<and>
     h ! count_tree_ref r = count_tree ft \<and> h ! sum_tree_ref r = sum_tree ft \<and>
     size_ref r = size_ft ft"

definition same_outside :: "FenwickTree_ref \<Rightarrow> heap \<Rightarrow> heap \<Rightarrow> bool" where
  "same_outside r h h' \<longleftrightarrow>
     length h' = length h \<and>
     (\<forall>b<length h. b \<noteq> count_tree_ref r \<and> b \<noteq> sum_tree_ref r \<longrightarrow> h' ! b = h ! b)"

text \<open>A sequence of insertions \<open>(rank, value)\<close>, applied in order by \<open>update\<close>.\<close>

fun FenwickTree_inserts :: "FenwickTree \<Rightarrow> (int \<times> int) list \<Rightarrow> FenwickTree option" where
  "FenwickTree_inserts ft [] = Some ft"
| "FenwickTree_inserts ft ((rank, val) # ps) =
     do {
       ft' \<leftarrow> FenwickTree_update ft rank val;
       FenwickTree_inserts ft' ps
     }"

text \<open>The same for the dictionary-backed tree.\<close>

fun CompactFenwickTree_inserts ::
  "CompactFenwickTree \<Rightarrow> (int \<times> int) list \<Rightarrow> CompactFenwickTree option" where
  "CompactFenwickTree_inserts ft [] = Some ft"
| "CompactFenwickTree_inserts ft ((rank, val) # ps) =
     do {
       ft' \<leftarrow> CompactFenwickTree_update ft rank val;
       CompactFenwickTree_inserts ft' ps
     }"

section \<open>Properties\<close>

subsection \<open>The lowest set bit and the cells that cover a position\<close>

lemma lowbit_odd: "odd i \<Longrightarrow> lowbit i = 1"
proof -
  assume o: "odd i"
  have "(- i) div 2 = NOT (i div 2)"
    using o by (simp add: not_int_def) presburger
  then have "i div 2 AND (- i) div 2 = 0" by simp
  then show ?thesis
    unfolding lowbit_def using o by (subst and_int_rec) simp
qed

lemma lowbit_even: "even i \<Longrightarrow> lowbit i = 2 * lowbit (i div 2)"
proof -
  assume e: "even i"
  have "(- i) div 2 = - (i div 2)"
    using e by presburger
  then show ?thesis
    unfolding lowbit_def using e by (subst and_int_rec) simp
qed

lemma lowbit_pos: "0 < i \<Longrightarrow> 0 < lowbit i \<and> lowbit i \<le> i"
proof (induction "nat i" arbitrary: i rule: less_induct)
  case less
  show ?case
  proof (cases "odd i")
    case True
    then show ?thesis using less.prems by (simp add: lowbit_odd)
  next
    case False
    then have e: "even i" by simp
    have "0 < i div 2" using less.prems e by presburger
    moreover have "nat (i div 2) < nat i" using less.prems by simp
    ultimately have "0 < lowbit (i div 2) \<and> lowbit (i div 2) \<le> i div 2"
      using less.hyps by blast
    then show ?thesis using e by (simp add: lowbit_even) presburger
  qed
qed

lemma lowbit_add_small:
  "0 < c \<Longrightarrow> 0 < d \<Longrightarrow> d < lowbit c \<Longrightarrow> lowbit (c + d) = lowbit d"
proof (induction "nat c" arbitrary: c d rule: less_induct)
  case less
  show ?case
  proof (cases "odd c")
    case True
    then show ?thesis using less.prems by (simp add: lowbit_odd)
  next
    case False
    then have e: "even c" by simp
    have lc: "lowbit c = 2 * lowbit (c div 2)" using e by (rule lowbit_even)
    show ?thesis
    proof (cases "odd d")
      case True
      then have "odd (c + d)" using e by simp
      then show ?thesis using True by (simp add: lowbit_odd)
    next
      case False
      then have ed: "even d" by simp
      have c2: "0 < c div 2" using less.prems e by presburger
      have d2: "0 < d div 2" using less.prems ed by presburger
      have lt: "d div 2 < lowbit (c div 2)" using less.prems lc ed by presburger
      have m: "nat (c div 2) < nat c" using less.prems by simp
      have ih: "lowbit (c div 2 + d div 2) = lowbit (d div 2)"
        using less.hyps [OF m c2 d2 lt] .
      have s: "(c + d) div 2 = c div 2 + d div 2" using e ed by presburger
      have "lowbit (c + d) = 2 * lowbit ((c + d) div 2)"
        using e ed by (intro lowbit_even) simp
      then show ?thesis using ih s ed by (simp add: lowbit_even)
    qed
  qed
qed

lemma lowbit_next: "0 < c \<Longrightarrow> 2 * lowbit c \<le> lowbit (c + lowbit c)"
proof (induction "nat c" arbitrary: c rule: less_induct)
  case less
  show ?case
  proof (cases "odd c")
    case True
    then have l: "lowbit c = 1" by (rule lowbit_odd)
    have e: "even (c + 1)" using True by simp
    have "0 < (c + 1) div 2" using less.prems by presburger
    then have "1 \<le> lowbit ((c + 1) div 2)" using lowbit_pos by force
    then show ?thesis using l lowbit_even [OF e] by simp
  next
    case False
    then have e: "even c" by simp
    have lc: "lowbit c = 2 * lowbit (c div 2)" using e by (rule lowbit_even)
    have c2: "0 < c div 2" using less.prems e by presburger
    have m: "nat (c div 2) < nat c" using less.prems by simp
    have ih: "2 * lowbit (c div 2) \<le> lowbit (c div 2 + lowbit (c div 2))"
      using less.hyps [OF m c2] .
    have e2: "even (c + lowbit c)" using e lc by simp
    have s: "(c + lowbit c) div 2 = c div 2 + lowbit (c div 2)" using e lc by presburger
    have "lowbit (c + lowbit c) = 2 * lowbit (c div 2 + lowbit (c div 2))"
      using lowbit_even [OF e2] s by simp
    then show ?thesis using ih lc by linarith
  qed
qed

lemma cover_next: "0 < c \<Longrightarrow> p \<in> cover c \<Longrightarrow> p \<in> cover (c + lowbit c)"
  using lowbit_next [of c] lowbit_pos [of c] by (simp add: cover_def)

lemma cover_between:
  assumes "0 < c" "p \<le> c" "c < j" "j < c + lowbit c"
  shows "p \<notin> cover j"
proof -
  have d: "0 < j - c" "j - c < lowbit c" using assms by simp_all
  have "lowbit (c + (j - c)) = lowbit (j - c)"
    using lowbit_add_small [OF assms(1) d] .
  then have "lowbit j = lowbit (j - c)" by simp
  moreover have "lowbit (j - c) \<le> j - c" using lowbit_pos [OF d(1)] by simp
  ultimately show ?thesis using assms by (simp add: cover_def)
qed

lemma cover_le: "p \<in> cover j \<Longrightarrow> p \<le> j"
  by (simp add: cover_def)

lemma cover_self: "0 < p \<Longrightarrow> p \<in> cover p"
  using lowbit_pos [of p] by (simp add: cover_def)

lemma finite_cover: "finite (cover j)"
  by (simp add: cover_def)

subsection \<open>The Fenwick invariant through an update and a prefix walk\<close>

lemma sum_fun_upd_cover:
  "(\<Sum>i\<in>cover j. (a(p := a p + d)) i) = (\<Sum>i\<in>cover j. a i) + (if p \<in> cover j then d else (0::int))"
proof (cases "p \<in> cover j")
  case True
  have "(\<Sum>i\<in>cover j. (a(p := a p + d)) i) = (a(p := a p + d)) p + (\<Sum>i\<in>cover j - {p}. (a(p := a p + d)) i)"
    using True finite_cover by (simp add: sum.remove)
  also have "(\<Sum>i\<in>cover j - {p}. (a(p := a p + d)) i) = (\<Sum>i\<in>cover j - {p}. a i)"
    by (rule sum.cong) auto
  also have "(a(p := a p + d)) p + (\<Sum>i\<in>cover j - {p}. a i) = d + (a p + (\<Sum>i\<in>cover j - {p}. a i))"
    by simp
  also have "a p + (\<Sum>i\<in>cover j - {p}. a i) = (\<Sum>i\<in>cover j. a i)"
    using True finite_cover by (simp add: sum.remove)
  finally show ?thesis using True by simp
next
  case False
  have "(\<Sum>i\<in>cover j. (a(p := a p + d)) i) = (\<Sum>i\<in>cover j. a i)"
    by (rule sum.cong) (use False in auto)
  then show ?thesis using False by simp
qed

lemma fen_part_start: "fen_inv B t a \<Longrightarrow> fen_part B t a d p p"
  unfolding fen_inv_def fen_part_def using cover_le by fastforce

lemma fen_part_step:
  assumes "fen_part B t a d p c" "0 < c" "p \<in> cover c"
  shows "fen_part B (t(c := t c + d)) a d p (c + lowbit c)"
  unfolding fen_part_def
proof (intro allI impI)
  fix j assume j: "1 \<le> j \<and> j \<le> B"
  have old: "t j = (\<Sum>i\<in>cover j. a i) + (if j < c \<and> p \<in> cover j then d else 0)"
    using assms(1) j unfolding fen_part_def by blast
  have lp: "0 < lowbit c" using lowbit_pos [OF assms(2)] by simp
  have pc: "p \<le> c" using assms(3) by (rule cover_le)
  consider "j < c" | "j = c" | "c < j" "j < c + lowbit c" | "c + lowbit c \<le> j" by linarith
  then show "(t(c := t c + d)) j =
      (\<Sum>i\<in>cover j. a i) + (if j < c + lowbit c \<and> p \<in> cover j then d else 0)"
  proof cases
    case 1
    then show ?thesis using old lp by simp
  next
    case 2
    then show ?thesis using old lp assms(3) by simp
  next
    case 3
    then have "p \<notin> cover j" using cover_between [OF assms(2) pc] by blast
    then show ?thesis using old 3 by simp
  next
    case 4
    then show ?thesis using old lp by simp
  qed
qed

lemma fen_part_end:
  assumes "fen_part B t a d p c" "B < c"
  shows "fen_inv B t (a(p := a p + d))"
  unfolding fen_inv_def
proof (intro allI impI)
  fix j assume j: "1 \<le> j \<and> j \<le> B"
  then have "t j = (\<Sum>i\<in>cover j. a i) + (if p \<in> cover j then d else 0)"
    using assms unfolding fen_part_def by auto
  then show "t j = (\<Sum>i\<in>cover j. (a(p := a p + d)) i)"
    by (simp only: sum_fun_upd_cover)
qed

lemma fen_part_cong:
  "fen_part B t a d p c \<Longrightarrow> (\<And>j. 1 \<le> j \<Longrightarrow> j \<le> B \<Longrightarrow> t' j = t j) \<Longrightarrow> fen_part B t' a d p c"
  unfolding fen_part_def by simp

lemma prefix_split:
  assumes "0 < q"
  shows "(\<Sum>i\<in>{0<..q}. a i) = (\<Sum>i\<in>{0<..q - lowbit q}. a i) + (\<Sum>i\<in>cover q. (a i :: int))"
proof -
  have l: "0 < lowbit q" "lowbit q \<le> q" using lowbit_pos [OF assms] by simp_all
  have "{0<..q} = {0<..q - lowbit q} \<union> cover q" using l by (auto simp: cover_def)
  moreover have "{0<..q - lowbit q} \<inter> cover q = {}" by (auto simp: cover_def)
  ultimately show ?thesis by (simp add: sum.union_disjoint finite_cover)
qed

subsection \<open>The array-backed tree\<close>

lemma query_loop_correct:
  assumes inv: "fen_inv B (\<lambda>j. tree ! nat j) a" and len: "int (length tree) = B + 1"
  shows "0 \<le> q \<Longrightarrow> q \<le> B \<Longrightarrow> query_loop tree q acc = Some (acc + (\<Sum>i\<in>{0<..q}. a i))"
proof (induction "nat q" arbitrary: q acc rule: less_induct)
  case less
  show ?case
  proof (cases "q = 0")
    case True
    then show ?thesis by (subst query_loop.simps) simp
  next
    case False
    then have q: "0 < q" using less.prems by simp
    have l: "0 < lowbit q" "lowbit q \<le> q" using lowbit_pos [OF q] by simp_all
    have g: "list_get tree q = Some (tree ! nat q)"
      using q less.prems len by (simp add: list_get_def list_index_def)
    have cell: "tree ! nat q = (\<Sum>i\<in>cover q. a i)"
      using inv q less.prems unfolding fen_inv_def by simp
    have ih: "query_loop tree (q - lowbit q) (acc + tree ! nat q) =
        Some (acc + tree ! nat q + (\<Sum>i\<in>{0<..q - lowbit q}. a i))"
      using less.hyps [of "q - lowbit q" "acc + tree ! nat q"] l q less.prems by simp
    have "query_loop tree q acc = query_loop tree (q - lowbit q) (acc + tree ! nat q)"
      by (subst query_loop.simps) (simp add: q g)
    then show ?thesis using ih cell prefix_split [OF q, of a] by simp
  qed
qed

lemma view_list_update:
  assumes "0 < c" "c < int (length xs)"
  shows "1 \<le> j \<Longrightarrow> (xs[nat c := x]) ! nat j = ((\<lambda>j. xs ! nat j)(c := x)) j"
  using assms by (auto simp: nth_list_update)

lemma FenwickTree_update_correct_aux:
  "size_ft ft = n \<Longrightarrow> int (length (count_tree ft)) = n + 1 \<Longrightarrow>
   int (length (sum_tree ft)) = n + 1 \<Longrightarrow>
   fen_part n (\<lambda>j. count_tree ft ! nat j) a 1 p c \<Longrightarrow>
   fen_part n (\<lambda>j. sum_tree ft ! nat j) b v p c \<Longrightarrow>
   0 < c \<Longrightarrow> p \<in> cover c \<Longrightarrow>
   \<exists>ft'. FenwickTree_update ft c v = Some ft' \<and>
      dense_inv n ft' (a(p := a p + 1)) (b(p := b p + v))"
proof (induction "nat (n + 1 - c)" arbitrary: c ft rule: less_induct)
  case less
  let ?ct = "count_tree ft" and ?st = "sum_tree ft"
  show ?case
  proof (cases "c \<le> n")
    case False
    then have "FenwickTree_update ft c v = Some ft"
      using less.prems(1) by (subst FenwickTree_update.simps) simp
    moreover have "dense_inv n ft (a(p := a p + 1)) (b(p := b p + v))"
      unfolding dense_inv_def using less.prems False
      by (simp add: fen_part_end)
    ultimately show ?thesis by blast
  next
    case True
    let ?ct' = "?ct[nat c := ?ct ! nat c + 1]" and ?st' = "?st[nat c := ?st ! nat c + v]"
    let ?ft' = "ft\<lparr>count_tree := ?ct', sum_tree := ?st'\<rparr>"
    have l: "0 < lowbit c" using lowbit_pos [OF less.prems(6)] by simp
    have ga: "list_add ?ct c 1 = Some ?ct'"
      using True less.prems by (simp add: list_add_def list_index_def)
    have gb: "list_add ?st c v = Some ?st'"
      using True less.prems by (simp add: list_add_def list_index_def)
    have step: "FenwickTree_update ft c v = FenwickTree_update ?ft' (c + lowbit c) v"
      by (subst FenwickTree_update.simps) (simp add: True less.prems(1) ga gb)
    have pa: "fen_part n (\<lambda>j. ?ct' ! nat j) a 1 p (c + lowbit c)"
      by (rule fen_part_cong [OF fen_part_step [OF less.prems(4) less.prems(6) less.prems(7)]])
         (use True less.prems in \<open>simp add: view_list_update\<close>)
    have pb: "fen_part n (\<lambda>j. ?st' ! nat j) b v p (c + lowbit c)"
      by (rule fen_part_cong [OF fen_part_step [OF less.prems(5) less.prems(6) less.prems(7)]])
         (use True less.prems in \<open>simp add: view_list_update\<close>)
    have m: "nat (n + 1 - (c + lowbit c)) < nat (n + 1 - c)" using l True by simp
    have "\<exists>ft'. FenwickTree_update ?ft' (c + lowbit c) v = Some ft' \<and>
        dense_inv n ft' (a(p := a p + 1)) (b(p := b p + v))"
      by (rule less.hyps [OF m])
         (use less.prems pa pb l cover_next [OF less.prems(6) less.prems(7)] in simp_all)
    then show ?thesis using step by simp
  qed
qed

lemma FenwickTree_update_correct:
  assumes "dense_inv n ft a b" "0 < p"
  shows "\<exists>ft'. FenwickTree_update ft p v = Some ft' \<and>
      dense_inv n ft' (a(p := a p + 1)) (b(p := b p + v))"
  using assms FenwickTree_update_correct_aux [of ft n a p p b v]
  by (simp add: dense_inv_def fen_part_start cover_self)

lemma FenwickTree_init_inv:
  "0 \<le> k \<Longrightarrow> dense_inv k (FenwickTree_init k) (\<lambda>_. 0) (\<lambda>_. 0)"
  by (simp add: dense_inv_def FenwickTree_init_def fen_inv_def)

lemma FenwickTree_query_correct:
  assumes "dense_inv n ft a b" "0 \<le> q" "q \<le> n"
  shows "FenwickTree_query_count ft q = Some (\<Sum>i\<in>{0<..q}. a i)"
    and "FenwickTree_query_sum ft q = Some (\<Sum>i\<in>{0<..q}. b i)"
  using assms query_loop_correct [of n "count_tree ft" a q 0]
    query_loop_correct [of n "sum_tree ft" b q 0]
  by (simp_all add: dense_inv_def FenwickTree_query_count_def FenwickTree_query_sum_def)

subsection \<open>The rank dictionary and the buckets\<close>

lemma value_to_rank_of_snoc:
  "value_to_rank_of (xs @ [x]) = (value_to_rank_of xs)(x \<mapsto> int (length xs) + 1)"
  by (simp add: value_to_rank_of_def enumerate_append_eq)

lemma value_to_rank_of_Nil: "value_to_rank_of [] = Map.empty"
  by (simp add: value_to_rank_of_def)

lemma dom_value_to_rank_of: "dom (value_to_rank_of xs) = set xs"
proof (induction xs rule: rev_induct)
  case Nil
  then show ?case by (simp add: value_to_rank_of_Nil)
next
  case (snoc x xs)
  have "dom (value_to_rank_of (xs @ [x])) = insert x (dom (value_to_rank_of xs))"
    by (simp only: value_to_rank_of_snoc dom_fun_upd) simp
  then show ?case using snoc by simp
qed

lemma value_to_rank_of_nth:
  "distinct xs \<Longrightarrow> i < length xs \<Longrightarrow> value_to_rank_of xs (xs ! i) = Some (int i + 1)"
proof (induction xs rule: rev_induct)
  case Nil
  then show ?case by simp
next
  case (snoc x xs)
  show ?case
  proof (cases "i < length xs")
    case True
    then have "xs ! i \<noteq> x" using snoc.prems by auto
    then show ?thesis using snoc True by (simp add: value_to_rank_of_snoc nth_append)
  next
    case False
    then have "i = length xs" using snoc.prems by simp
    then show ?thesis by (simp add: value_to_rank_of_snoc)
  qed
qed

lemma rank_ok_sorted:
  assumes "sorted xs" "distinct xs"
  shows "rank_ok (value_to_rank_of xs) (set xs) (int (length xs))"
  unfolding rank_ok_def
proof (intro conjI ballI)
  fix v assume "v \<in> set xs"
  then obtain i where i: "i < length xs" "xs ! i = v" by (auto simp: in_set_conv_nth)
  then have "value_to_rank_of xs v = Some (int i + 1)"
    using value_to_rank_of_nth [OF assms(2), of i] by simp
  then show "\<exists>r. value_to_rank_of xs v = Some r \<and> 1 \<le> r \<and> r \<le> int (length xs)"
    using i by simp
next
  fix u v assume "u \<in> set xs" "v \<in> set xs"
  then obtain i j where i: "i < length xs" "xs ! i = u" and j: "j < length xs" "xs ! j = v"
    by (auto simp: in_set_conv_nth)
  have ru: "value_to_rank_of xs u = Some (int i + 1)"
    using value_to_rank_of_nth [OF assms(2), of i] i by simp
  have rv: "value_to_rank_of xs v = Some (int j + 1)"
    using value_to_rank_of_nth [OF assms(2), of j] j by simp
  have s: "sorted_wrt (<) xs" using assms by (simp add: strict_sorted_iff)
  have "i < j \<longleftrightarrow> xs ! i < xs ! j"
  proof
    assume "i < j" then show "xs ! i < xs ! j" using sorted_wrt_nth_less [OF s _ j(1)] by simp
  next
    assume lt: "xs ! i < xs ! j"
    show "i < j"
    proof (rule ccontr)
      assume "\<not> i < j"
      then have "j \<le> i" by simp
      then have "xs ! j \<le> xs ! i" using sorted_nth_mono [OF assms(1) _ i(1)] by simp
      then show False using lt by simp
    qed
  qed
  then have k: "(i < j) = (u < v)" using i(2) j(2) by simp
  have "(int i + 1 < int j + 1) = (i < j)" by linarith
  then have "int i + 1 < int j + 1 \<longleftrightarrow> u < v" using k by (simp only:)
  then show "the (value_to_rank_of xs u) < the (value_to_rank_of xs v) \<longleftrightarrow> u < v"
    by (simp only: ru rv option.sel)
qed

lemma bucket_snoc:
  "vr v = Some r \<Longrightarrow> bucket f vr (xs @ [v]) = (bucket f vr xs)(r := bucket f vr xs r + f v)"
  by (rule ext) (simp add: bucket_def)

lemma bucket_Nil: "bucket f vr [] = (\<lambda>_. 0)"
  by (rule ext) (simp add: bucket_def)

lemma sum_bucket_prefix:
  "(\<Sum>r\<in>{0<..q}. bucket f vr xs r) =
     (\<Sum>x\<leftarrow>xs. if \<exists>r. vr x = Some r \<and> 0 < r \<and> r \<le> q then f x else 0)"
proof (induction xs)
  case Nil
  then show ?case by (simp add: bucket_def)
next
  case (Cons x xs)
  have one: "(\<Sum>r\<in>{0<..q}. if vr x = Some r then f x else 0) =
      (if \<exists>r. vr x = Some r \<and> 0 < r \<and> r \<le> q then f x else 0)"
  proof (cases "vr x")
    case None
    then show ?thesis by simp
  next
    case (Some r0)
    have "(\<Sum>r\<in>{0<..q}. if r0 = r then f x else 0) = (if r0 \<in> {0<..q} then f x else 0)"
      by (simp add: sum.delta')
    then show ?thesis using Some by simp
  qed
  have "(\<Sum>r\<in>{0<..q}. bucket f vr (x # xs) r) =
      (\<Sum>r\<in>{0<..q}. if vr x = Some r then f x else 0) + (\<Sum>r\<in>{0<..q}. bucket f vr xs r)"
    by (simp add: bucket_def sum.distrib)
  then show ?case using one Cons.IH by simp
qed

lemma rank_below_iff:
  assumes "rank_ok vr S k" "x \<in> S" "v \<in> S" "vr v = Some rv"
  shows "(\<exists>r. vr x = Some r \<and> 0 < r \<and> r \<le> rv - 1) \<longleftrightarrow> x < v"
proof -
  obtain rx where rx: "vr x = Some rx" "1 \<le> rx" using assms(1,2) unfolding rank_ok_def by blast
  have "rx < rv \<longleftrightarrow> x < v" using assms rx unfolding rank_ok_def by fastforce
  then show ?thesis using rx by auto
qed

lemma smaller_prefix:
  assumes "rank_ok vr S k" "set xs \<subseteq> S" "v \<in> S" "vr v = Some rv"
  shows "(\<Sum>r\<in>{0<..rv - 1}. bucket f vr xs r) = (\<Sum>x\<leftarrow>xs. if x < v then f x else 0)"
proof -
  have "(\<Sum>x\<leftarrow>xs. if \<exists>r. vr x = Some r \<and> 0 < r \<and> r \<le> rv - 1 then f x else 0) =
      (\<Sum>x\<leftarrow>xs. if x < v then f x else 0)"
    by (rule arg_cong [where f = sum_list], rule map_cong [OF refl])
       (use rank_below_iff [OF assms(1) _ assms(3,4)] assms(2) in auto)
  then show ?thesis by (simp add: sum_bucket_prefix)
qed

lemma contribution_eq:
  "v * (\<Sum>x\<leftarrow>xs. if x < v then 1 else 0) - (\<Sum>x\<leftarrow>xs. if x < v then x else 0) =
     (\<Sum>x\<leftarrow>xs. if v > x then v - x else (0::int))"
  by (induction xs) (auto simp: algebra_simps)

lemma positive_difference_sum_snoc:
  "positive_difference_sum (xs @ [v]) =
     positive_difference_sum xs + (\<Sum>x\<leftarrow>xs. if v > x then v - x else 0)"
proof -
  have a: "(\<Sum>j<length xs. \<Sum>i<j. if (xs @ [v]) ! j > (xs @ [v]) ! i
             then (xs @ [v]) ! j - (xs @ [v]) ! i else 0) =
        (\<Sum>j<length xs. \<Sum>i<j. if xs ! j > xs ! i then xs ! j - xs ! i else 0)"
    by (intro sum.cong refl) (simp add: nth_append)
  have b: "(\<Sum>i<length xs. if (xs @ [v]) ! length xs > (xs @ [v]) ! i
             then (xs @ [v]) ! length xs - (xs @ [v]) ! i else 0) =
        (\<Sum>i<length xs. if v > xs ! i then v - xs ! i else 0)"
    by (intro sum.cong refl) (simp add: nth_append)
  have c: "(\<Sum>i<length xs. if v > xs ! i then v - xs ! i else 0) =
        (\<Sum>x\<leftarrow>xs. if v > x then v - x else 0)"
    by (simp add: sum_list_sum_nth atLeast0LessThan)
  show ?thesis
    unfolding positive_difference_sum_def using a b c by simp
qed

subsection \<open>The aggregation pass computes the specified sum\<close>

lemma aggregate_step_correct:
  assumes rk: "rank_ok vr S k" and xs: "set xs \<subseteq> S" and v: "v \<in> S"
    and inv: "agg_inv vr k ft xs"
  shows "\<exists>ft'. aggregate_step vr (ft, tot) v =
        Some (ft', tot + (\<Sum>x\<leftarrow>xs. if v > x then v - x else 0)) \<and>
      agg_inv vr k ft' (xs @ [v])"
proof -
  obtain r where r: "vr v = Some r" "1 \<le> r" "r \<le> k"
    using rk v unfolding rank_ok_def by blast
  have d: "dense_inv k ft (bucket (\<lambda>_. 1) vr xs) (bucket (\<lambda>x. x) vr xs)"
    using inv by (simp add: agg_inv_def)
  obtain ft' where u: "FenwickTree_update ft r v = Some ft'"
    and d': "dense_inv k ft' ((bucket (\<lambda>_. 1) vr xs)(r := bucket (\<lambda>_. 1) vr xs r + 1))
        ((bucket (\<lambda>x. x) vr xs)(r := bucket (\<lambda>x. x) vr xs r + v))"
    using FenwickTree_update_correct [OF d, of r v] r by auto
  have inv': "agg_inv vr k ft' (xs @ [v])"
    using d' r(1) by (simp add: agg_inv_def bucket_snoc)
  have qc: "FenwickTree_query_count ft (r - 1) = Some (\<Sum>x\<leftarrow>xs. if x < v then 1 else 0)"
    using FenwickTree_query_correct(1) [OF d, of "r - 1"] r
      smaller_prefix [OF rk xs v r(1), of "\<lambda>_. 1"] by simp
  have qs: "FenwickTree_query_sum ft (r - 1) = Some (\<Sum>x\<leftarrow>xs. if x < v then x else 0)"
    using FenwickTree_query_correct(2) [OF d, of "r - 1"] r
      smaller_prefix [OF rk xs v r(1), of "\<lambda>x. x"] by simp
  show ?thesis
  proof (cases "r > 1")
    case True
    have "aggregate_step vr (ft, tot) v =
        Some (ft', tot + (v * (\<Sum>x\<leftarrow>xs. if x < v then 1 else 0) - (\<Sum>x\<leftarrow>xs. if x < v then x else 0)))"
      by (simp add: aggregate_step_def r(1) True qc qs u)
    then show ?thesis using inv' by (simp only: contribution_eq) simp
  next
    case False
    then have r1: "r = 1" using r by simp
    have none: "\<And>x. x \<in> set xs \<Longrightarrow> \<not> x < v"
    proof
      fix x assume "x \<in> set xs" "x < v"
      then have "\<exists>r'. vr x = Some r' \<and> 0 < r' \<and> r' \<le> r - 1"
        using rank_below_iff [OF rk _ v r(1), of x] xs by auto
      then show False using r1 by auto
    qed
    have z: "(\<Sum>x\<leftarrow>xs. if v > x then v - x else 0) = 0"
      using none by (induction xs) auto
    have "aggregate_step vr (ft, tot) v = Some (ft', tot)"
      using u by (simp add: aggregate_step_def r(1) r1)
    then show ?thesis using inv' z by simp
  qed
qed

lemma aggregate_loop_correct:
  assumes rk: "rank_ok vr S k"
  shows "set xs \<subseteq> S \<Longrightarrow> set rest \<subseteq> S \<Longrightarrow> agg_inv vr k ft xs \<Longrightarrow>
    \<exists>ft'. aggregate_loop vr (ft, tot) rest =
        Some (ft', tot + (positive_difference_sum (xs @ rest) - positive_difference_sum xs)) \<and>
      agg_inv vr k ft' (xs @ rest)"
proof (induction rest arbitrary: xs ft tot)
  case Nil
  then show ?case by simp
next
  case (Cons v rest)
  have v: "v \<in> S" using Cons.prems by simp
  obtain ft1 where s1: "aggregate_step vr (ft, tot) v =
        Some (ft1, tot + (\<Sum>x\<leftarrow>xs. if v > x then v - x else 0))"
      and i1: "agg_inv vr k ft1 (xs @ [v])"
    using aggregate_step_correct [OF rk Cons.prems(1) v Cons.prems(3), of tot] by blast
  have p1: "set (xs @ [v]) \<subseteq> S" using Cons.prems by simp
  have p2: "set rest \<subseteq> S" using Cons.prems by simp
  obtain ft' where s2: "aggregate_loop vr (ft1, tot + (\<Sum>x\<leftarrow>xs. if v > x then v - x else 0)) rest =
        Some (ft', tot + (\<Sum>x\<leftarrow>xs. if v > x then v - x else 0) +
          (positive_difference_sum ((xs @ [v]) @ rest) - positive_difference_sum (xs @ [v])))"
      and i2: "agg_inv vr k ft' ((xs @ [v]) @ rest)"
    using Cons.IH [OF p1 p2 i1] by blast
  have "aggregate_loop vr (ft, tot) (v # rest) =
      Some (ft', tot + (positive_difference_sum (xs @ v # rest) - positive_difference_sum xs))"
    using s1 s2 by (simp add: positive_difference_sum_snoc)
  then show ?case using i2 by simp
qed

lemma positive_difference_sum_Nil: "positive_difference_sum [] = 0"
  by (simp add: positive_difference_sum_def)

lemma optimized_eq_spec:
  "calculate_positive_differences_optimized arr = Some (positive_difference_sum arr)"
proof (cases "length arr \<le> 1")
  case True
  then have "positive_difference_sum arr = 0"
    by (cases arr) (auto simp: positive_difference_sum_def)
  then show ?thesis using True by (simp add: calculate_positive_differences_optimized_def)
next
  case False
  let ?sv = "sorted_list_of_set (set arr)"
  have rk: "rank_ok (value_to_rank_of ?sv) (set arr) (int (length ?sv))"
    using rank_ok_sorted [of ?sv] by simp
  have i0: "agg_inv (value_to_rank_of ?sv) (int (length ?sv)) (FenwickTree_init (int (length ?sv))) []"
    by (simp add: agg_inv_def bucket_Nil FenwickTree_init_inv)
  obtain ft' where "aggregate_loop (value_to_rank_of ?sv) (FenwickTree_init (int (length ?sv)), 0) arr =
      Some (ft', 0 + (positive_difference_sum ([] @ arr) - positive_difference_sum []))"
    using aggregate_loop_correct [OF rk _ _ i0, of arr 0] by auto
  then show ?thesis
    using False by (simp add: calculate_positive_differences_optimized_def positive_difference_sum_Nil)
qed

subsection \<open>The naive reference computes the specified sum\<close>

lemma foldl_add_sum:
  "foldl (\<lambda>t j. t + g j) t0 [a..<b] = t0 + (\<Sum>j = a..<b. (g j :: int))"
proof (induction "b - a" arbitrary: b)
  case 0
  then show ?case by simp
next
  case (Suc n)
  then obtain b' where b: "b = Suc b'" "a \<le> b'" by (cases b) auto
  then have "n = b' - a" using Suc.hyps(2) by simp
  then have "foldl (\<lambda>t j. t + g j) t0 [a..<b'] = t0 + (\<Sum>j = a..<b'. g j)" by (rule Suc.hyps(1))
  then show ?case using b by simp
qed

lemma pair_sum_swap:
  "(\<Sum>i = 0..<n. \<Sum>j = Suc i..<n. f i j) = (\<Sum>j = 0..<n. \<Sum>i = 0..<j. (f i j :: int))"
proof (induction n)
  case 0
  then show ?case by simp
next
  case (Suc n)
  have "(\<Sum>i = 0..<Suc n. \<Sum>j = Suc i..<Suc n. f i j) =
      (\<Sum>i = 0..<n. \<Sum>j = Suc i..<Suc n. f i j)"
    by simp
  also have "\<dots> = (\<Sum>i = 0..<n. (\<Sum>j = Suc i..<n. f i j) + f i n)"
    by (intro sum.cong refl) simp
  also have "\<dots> = (\<Sum>i = 0..<n. \<Sum>j = Suc i..<n. f i j) + (\<Sum>i = 0..<n. f i n)"
    by (simp add: sum.distrib)
  finally show ?case using Suc.IH by simp
qed

lemma naive_eq_spec:
  "calculate_positive_differences_naive arr = positive_difference_sum arr"
proof -
  let ?n = "length arr"
  let ?f = "\<lambda>i j. if arr ! j > arr ! i then arr ! j - arr ! i else 0"
  have inner: "\<And>t i. foldl (\<lambda>total_sum j. let diff = arr ! j - arr ! i
        in if diff > 0 then total_sum + diff else total_sum) t [i + 1..<?n] =
      t + (\<Sum>j = i + 1..<?n. ?f i j)"
  proof -
    fix t i
    have "(\<lambda>total_sum j. let diff = arr ! j - arr ! i
        in if diff > 0 then total_sum + diff else total_sum) = (\<lambda>t j. t + ?f i j)"
      by (intro ext) (simp add: Let_def)
    then show "foldl (\<lambda>total_sum j. let diff = arr ! j - arr ! i
        in if diff > 0 then total_sum + diff else total_sum) t [i + 1..<?n] =
      t + (\<Sum>j = i + 1..<?n. ?f i j)"
      by (simp only: foldl_add_sum)
  qed
  have "calculate_positive_differences_naive arr =
      foldl (\<lambda>t i. t + (\<Sum>j = i + 1..<?n. ?f i j)) 0 [0..<?n]"
    unfolding calculate_positive_differences_naive_def Let_def
    using inner [unfolded Let_def] by simp
  also have "\<dots> = (\<Sum>i = 0..<?n. \<Sum>j = i + 1..<?n. ?f i j)"
    by (simp only: foldl_add_sum)
  also have "\<dots> = (\<Sum>j = 0..<?n. \<Sum>i = 0..<j. ?f i j)"
    using pair_sum_swap [of ?f ?n] by simp
  finally show ?thesis by (simp add: positive_difference_sum_def atLeast0LessThan)
qed

lemma optimized_refines_naive:
  "calculate_positive_differences_optimized arr = Some (calculate_positive_differences_naive arr)"
  by (simp add: optimized_eq_spec naive_eq_spec)


subsection \<open>Rank 0, short sequences, sequences without a positive difference, examples\<close>

lemma query_loop_zero: "query_loop tree 0 acc = Some acc"
  by (subst query_loop.simps) simp

lemma compact_query_loop_zero: "compact_query_loop tree 0 acc = Some acc"
  by (subst compact_query_loop.simps) simp

lemma query_tree_zero: "query_tree ft 0 = Some (0, 0)"
  unfolding query_tree_def by (subst query_tree_loop.simps) simp

text \<open>
  C8: a prefix query at rank 0 returns 0 for the count and for the sum, whatever the
  tree holds: the loop body is not entered, so no cell is read. This holds for the
  array-backed tree (also through \<open>query_tree\<close>, which returns the pair) and for the
  dictionary-backed one.
\<close>

theorem query_rank_zero:
  "FenwickTree_query_count ft 0 = Some 0 \<and> FenwickTree_query_sum ft 0 = Some 0 \<and>
   query_tree ft 0 = Some (0, 0) \<and>
   CompactFenwickTree_query_count cft 0 = Some 0 \<and> CompactFenwickTree_query_sum cft 0 = Some 0"
  by (simp add: FenwickTree_query_count_def FenwickTree_query_sum_def query_loop_zero
      query_tree_zero
      CompactFenwickTree_query_count_def CompactFenwickTree_query_sum_def compact_query_loop_zero)

lemma coordinate_compression_eq_optimized:
  "calculate_with_coordinate_compression arr = calculate_positive_differences_optimized arr"
  by (simp add: calculate_with_coordinate_compression_def calculate_positive_differences_optimized_def)

text \<open>
  C5: on the empty sequence and on every sequence of one element the function returns 0
  (\<open>calculate_positive_differences_optimized\<close> and \<open>calculate_with_coordinate_compression\<close>).
\<close>

theorem short_sequence_zero:
  "length arr \<le> 1 \<Longrightarrow>
     calculate_positive_differences_optimized arr = Some 0 \<and>
     calculate_with_coordinate_compression arr = Some 0"
  by (simp add: calculate_with_coordinate_compression_def calculate_positive_differences_optimized_def)

theorem short_sequence_zero_witness:
  "length [7::int] \<le> 1 \<and>
   calculate_positive_differences_optimized [7] = Some 0 \<and>
   calculate_with_coordinate_compression [7] = Some 0 \<and>
   calculate_positive_differences_optimized [] = Some 0 \<and>
   calculate_with_coordinate_compression [] = Some 0"
  using short_sequence_zero [of "[7]"] short_sequence_zero [of "[]"] by simp

lemma positive_difference_sum_zero:
  assumes "\<And>i j. i < j \<Longrightarrow> j < length a \<Longrightarrow> \<not> a ! j > a ! i"
  shows "positive_difference_sum a = 0"
  unfolding positive_difference_sum_def
  by (intro sum.neutral ballI) (use assms in auto)

text \<open>
  C6: on a strictly decreasing sequence, and on a sequence whose elements are all equal,
  the function returns 0.
\<close>

theorem decreasing_or_constant_zero:
  "sorted_wrt (>) arr \<or> (\<forall>x\<in>set arr. \<forall>y\<in>set arr. x = y) \<Longrightarrow>
     calculate_positive_differences_optimized arr = Some 0"
proof -
  assume h: "sorted_wrt (>) arr \<or> (\<forall>x\<in>set arr. \<forall>y\<in>set arr. x = y)"
  have "positive_difference_sum arr = 0"
  proof (rule positive_difference_sum_zero)
    fix i j assume ij: "i < j" "j < length arr"
    from h show "\<not> arr ! j > arr ! i"
    proof
      assume "sorted_wrt (>) arr"
      then have "arr ! i > arr ! j" using ij by (rule sorted_wrt_nth_less)
      then show ?thesis by simp
    next
      assume "\<forall>x\<in>set arr. \<forall>y\<in>set arr. x = y"
      then have "arr ! i = arr ! j" using ij by simp
      then show ?thesis by simp
    qed
  qed
  then show ?thesis by (simp add: optimized_eq_spec)
qed

theorem decreasing_or_constant_zero_witness:
  "sorted_wrt (>) [5, 4, 3, 2, 1 :: int] \<and>
   calculate_positive_differences_optimized [5, 4, 3, 2, 1] = Some 0 \<and>
   calculate_positive_differences_optimized [2, 2, 2] = Some 0"
proof -
  have a: "sorted_wrt (>) [5, 4, 3, 2, 1 :: int]" by simp
  have b: "\<forall>x\<in>set [2, 2, 2 :: int]. \<forall>y\<in>set [2, 2, 2 :: int]. x = y" by simp
  show ?thesis
    using a decreasing_or_constant_zero [OF disjI1 [OF a]]
      decreasing_or_constant_zero [OF disjI2 [OF b]] by simp
qed

text \<open>
  C7: the three worked examples: 9 on \<open>[1,3,2,4]\<close>, 3 on \<open>[5,1,3,2]\<close> and 20 on
  \<open>[1,2,3,4,5]\<close>, by evaluation of the two array-backed functions.
\<close>

theorem worked_examples:
  "calculate_positive_differences_optimized [1, 3, 2, 4] = Some 9 \<and>
   calculate_positive_differences_optimized [5, 1, 3, 2] = Some 3 \<and>
   calculate_positive_differences_optimized [1, 2, 3, 4, 5] = Some 20 \<and>
   calculate_with_coordinate_compression [1, 3, 2, 4] = Some 9 \<and>
   calculate_with_coordinate_compression [5, 1, 3, 2] = Some 3 \<and>
   calculate_with_coordinate_compression [1, 2, 3, 4, 5] = Some 20"
  by code_simp

subsection \<open>Rank compression\<close>

lemma rank_ok_arr:
  "rank_ok (value_to_rank_of (sorted_list_of_set (set arr))) (set arr)
     (int (length (sorted_list_of_set (set arr))))"
  using rank_ok_sorted [of "sorted_list_of_set (set arr)"] by simp

lemma get_unique_values_streaming_fst:
  "fst (get_unique_values_streaming arr) = value_to_rank_of (sorted_list_of_set (set arr))"
proof -
  have "\<And>s. foldl (\<lambda>s val. insert val s) s arr = s \<union> set arr"
    by (induction arr) auto
  then have "foldl (\<lambda>s val. insert val s) {} arr = set arr" by simp
  then show ?thesis by (simp add: get_unique_values_streaming_def Let_def)
qed

text \<open>
  C3: for every sequence, \<open>sorted(set(arr))\<close> followed by the dictionary comprehension
  gives a dictionary whose keys are the distinct values of the sequence, which maps them
  one-to-one onto the ranks \<open>1..k\<close>, \<open>k\<close> the number of distinct values
  (\<open>k \<le> n\<close>), and in the order of the values: \<open>rank u < rank v\<close> iff \<open>u < v\<close>.
  The streaming variant builds the same dictionary.
\<close>

theorem rank_compression:
  "length (sorted_list_of_set (set arr)) = card (set arr) \<and>
   card (set arr) \<le> length arr \<and>
   dom (value_to_rank_of (sorted_list_of_set (set arr))) = set arr \<and>
   inj_on (value_to_rank_of (sorted_list_of_set (set arr))) (set arr) \<and>
   value_to_rank_of (sorted_list_of_set (set arr)) ` set arr = Some ` {1..int (card (set arr))} \<and>
   (\<forall>u\<in>set arr. \<forall>v\<in>set arr.
      (the (value_to_rank_of (sorted_list_of_set (set arr)) u)
         < the (value_to_rank_of (sorted_list_of_set (set arr)) v)) = (u < v)) \<and>
   fst (get_unique_values_streaming arr) = value_to_rank_of (sorted_list_of_set (set arr))"
proof -
  let ?sv = "sorted_list_of_set (set arr)"
  let ?vr = "value_to_rank_of ?sv"
  have sv: "sorted ?sv" "distinct ?sv" "set ?sv = set arr" by simp_all
  have len: "length ?sv = card (set arr)" by simp
  have rk: "rank_ok ?vr (set arr) (int (length ?sv))" by (rule rank_ok_arr)
  have ord: "\<forall>u\<in>set arr. \<forall>v\<in>set arr. (the (?vr u) < the (?vr v)) = (u < v)"
    using rk unfolding rank_ok_def by blast
  have inj: "inj_on ?vr (set arr)"
  proof (rule inj_onI)
    fix u v assume uv: "u \<in> set arr" "v \<in> set arr" "?vr u = ?vr v"
    have "(the (?vr u) < the (?vr v)) = (u < v)" "(the (?vr v) < the (?vr u)) = (v < u)"
      using ord uv(1,2) by blast+
    then have "\<not> u < v" "\<not> v < u" using uv(3) by simp_all
    then show "u = v" by simp
  qed
  have img: "?vr ` set arr = Some ` {1..int (card (set arr))}"
  proof (intro equalityI subsetI)
    fix y assume "y \<in> ?vr ` set arr"
    then obtain v where v: "v \<in> set arr" "y = ?vr v" by blast
    then obtain r where "?vr v = Some r" "1 \<le> r" "r \<le> int (length ?sv)"
      using rk unfolding rank_ok_def by blast
    then show "y \<in> Some ` {1..int (card (set arr))}" using v len by simp
  next
    fix y assume "y \<in> Some ` {1..int (card (set arr))}"
    then obtain r where r: "y = Some r" "1 \<le> r" "r \<le> int (length ?sv)" using len by auto
    let ?i = "nat (r - 1)"
    have i: "?i < length ?sv" using r by simp
    have "?vr (?sv ! ?i) = Some (int ?i + 1)"
      using value_to_rank_of_nth [OF sv(2) i] .
    moreover have "?sv ! ?i \<in> set arr" using nth_mem [OF i] sv(3) by simp
    ultimately show "y \<in> ?vr ` set arr" using r by force
  qed
  have g: "fst (get_unique_values_streaming arr) = ?vr"
    by (rule get_unique_values_streaming_fst)
  show ?thesis
    using len card_length [of arr] dom_value_to_rank_of [of ?sv] sv(3) inj img ord g
    by (simp only: simp_thms)
qed

theorem rank_compression_witness:
  "length (sorted_list_of_set (set [30, 10, 30 :: int])) = 2 \<and>
   the (value_to_rank_of (sorted_list_of_set (set [30, 10, 30])) 10)
     < the (value_to_rank_of (sorted_list_of_set (set [30, 10, 30])) 30)"
proof -
  note t = rank_compression [of "[30, 10, 30]"]
  have "length (sorted_list_of_set (set [30, 10, 30 :: int])) = card (set [30, 10, 30 :: int])"
    using t by blast
  moreover have "card (set [30, 10, 30 :: int]) = 2" by (simp add: card_insert_if)
  moreover have "(the (value_to_rank_of (sorted_list_of_set (set [30, 10, 30])) 10)
     < the (value_to_rank_of (sorted_list_of_set (set [30, 10, 30])) 30)) = ((10::int) < 30)"
    using t by simp
  ultimately show ?thesis by simp
qed

subsection \<open>The running total\<close>

lemma aggregate_loop_snoc:
  "aggregate_loop vr s (xs @ [v]) = aggregate_loop vr s xs \<bind> (\<lambda>s'. aggregate_step vr s' v)"
  by (induction xs arbitrary: s) simp_all

lemma aggregate_prefix:
  assumes "set xs \<subseteq> set arr"
  shows "\<exists>ft. aggregate_loop (rank_dict arr) (initial_state arr) xs =
        Some (ft, positive_difference_sum xs) \<and>
      agg_inv (rank_dict arr) (int (length (sorted_list_of_set (set arr)))) ft xs"
proof -
  have i0: "agg_inv (rank_dict arr) (int (length (sorted_list_of_set (set arr))))
      (FenwickTree_init (int (length (sorted_list_of_set (set arr))))) []"
    by (simp add: agg_inv_def bucket_Nil FenwickTree_init_inv)
  show ?thesis
    using aggregate_loop_correct [OF rank_ok_arr _ assms i0, of 0]
    by (simp add: positive_difference_sum_Nil)
qed

lemma pair_terms_nonneg: "0 \<le> (\<Sum>x\<leftarrow>xs. if v > x then v - x else (0::int))"
  by (rule sum_list_nonneg) auto

text \<open>
  C4: in the pass of \<open>calculate_positive_differences_optimized\<close>, the iteration for
  position \<open>j\<close> takes the state reached on \<open>arr[0..j-1]\<close> to the state reached on
  \<open>arr[0..j]\<close>, and adds to the running total the sum of \<open>arr[j] - x\<close> over the earlier
  \<open>x < arr[j]\<close>, which is not negative: the total never decreases. After the last
  position the total is the value the function returns.
\<close>

theorem running_total_monotone:
  "j < length arr \<Longrightarrow>
     \<exists>ft t ft' t' ftn tn.
       aggregate_loop (rank_dict arr) (initial_state arr) (take j arr) = Some (ft, t) \<and>
       aggregate_step (rank_dict arr) (ft, t) (arr ! j) = Some (ft', t') \<and>
       aggregate_loop (rank_dict arr) (initial_state arr) (take (Suc j) arr) = Some (ft', t') \<and>
       t' - t = (\<Sum>x\<leftarrow>take j arr. if arr ! j > x then arr ! j - x else 0) \<and>
       t \<le> t' \<and>
       aggregate_loop (rank_dict arr) (initial_state arr) arr = Some (ftn, tn) \<and>
       calculate_positive_differences_optimized arr = Some tn"
proof -
  assume j: "j < length arr"
  let ?vr = "rank_dict arr" and ?k = "int (length (sorted_list_of_set (set arr)))"
  have sub: "set (take j arr) \<subseteq> set arr" by (rule set_take_subset)
  obtain ft where a: "aggregate_loop ?vr (initial_state arr) (take j arr) =
        Some (ft, positive_difference_sum (take j arr))"
      and inv: "agg_inv ?vr ?k ft (take j arr)"
    using aggregate_prefix [OF sub] by blast
  have mem: "arr ! j \<in> set arr" using j by simp
  obtain ft' where b: "aggregate_step ?vr (ft, positive_difference_sum (take j arr)) (arr ! j) =
        Some (ft', positive_difference_sum (take j arr) +
          (\<Sum>x\<leftarrow>take j arr. if arr ! j > x then arr ! j - x else 0))"
    using aggregate_step_correct [OF rank_ok_arr sub mem inv] by blast
  have c: "aggregate_loop ?vr (initial_state arr) (take (Suc j) arr) =
        Some (ft', positive_difference_sum (take j arr) +
          (\<Sum>x\<leftarrow>take j arr. if arr ! j > x then arr ! j - x else 0))"
    using a b j by (simp add: take_Suc_conv_app_nth aggregate_loop_snoc)
  obtain ftn where d: "aggregate_loop ?vr (initial_state arr) arr =
        Some (ftn, positive_difference_sum arr)"
    using aggregate_prefix [of arr arr] by auto
  show ?thesis
    using a b c d pair_terms_nonneg [of "arr ! j" "take j arr"] optimized_eq_spec [of arr]
    by simp
qed

theorem running_total_monotone_witness:
  "(1::nat) < length [1, 3, 2, 4 :: int] \<and>
   (\<exists>ft t ft' t'.
       aggregate_loop (rank_dict [1, 3, 2, 4]) (initial_state [1, 3, 2, 4]) [1] = Some (ft, t) \<and>
       aggregate_loop (rank_dict [1, 3, 2, 4]) (initial_state [1, 3, 2, 4]) [1, 3] = Some (ft', t') \<and>
       t' - t = 2) \<and>
   calculate_positive_differences_optimized [1, 3, 2, 4] = Some 9"
proof -
  have h: "(1::nat) < length [1, 3, 2, 4 :: int]" by simp
  obtain ft t ft' t' ftn tn where
    "aggregate_loop (rank_dict [1, 3, 2, 4]) (initial_state [1, 3, 2, 4]) (take 1 [1, 3, 2, 4]) = Some (ft, t)"
    "aggregate_loop (rank_dict [1, 3, 2, 4]) (initial_state [1, 3, 2, 4]) (take (Suc 1) [1, 3, 2, 4]) = Some (ft', t')"
    "t' - t = (\<Sum>x\<leftarrow>take 1 [1, 3, 2, 4]. if [1, 3, 2, 4] ! 1 > x then [1, 3, 2, 4] ! 1 - x else 0)"
    using running_total_monotone [OF h] by blast
  then have "aggregate_loop (rank_dict [1, 3, 2, 4]) (initial_state [1, 3, 2, 4]) [1] = Some (ft, t) \<and>
       aggregate_loop (rank_dict [1, 3, 2, 4]) (initial_state [1, 3, 2, 4]) [1, 3] = Some (ft', t') \<and>
       t' - t = 2"
    by simp
  moreover have "calculate_positive_differences_optimized [1, 3, 2, 4] = Some 9"
    by code_simp
  ultimately show ?thesis using h by blast
qed

subsection \<open>The call on the heap\<close>

lemma same_outside_refl: "same_outside r h h"
  by (simp add: same_outside_def)

lemma same_outside_trans:
  "same_outside r h h1 \<Longrightarrow> same_outside r h1 h2 \<Longrightarrow> same_outside r h h2"
  by (simp add: same_outside_def)

lemma query_heap_eq:
  "a < length h \<Longrightarrow> query_heap h a idx acc = query_loop (h ! a) idx acc"
proof (induction "nat idx" arbitrary: idx acc rule: less_induct)
  case less
  show ?case
  proof (cases "idx > 0")
    case False
    then show ?thesis
      by (subst query_heap.simps, subst query_loop.simps) simp
  next
    case True
    have m: "nat (idx - lowbit idx) < nat idx" using lowbit_pos [OF True] True by simp
    show ?thesis
    proof (cases "list_get (h ! a) idx")
      case None
      then show ?thesis using True less.prems
        by (subst query_heap.simps, subst query_loop.simps) (simp add: heap_get_def)
    next
      case (Some c)
      have "query_heap h a (idx - lowbit idx) (acc + c) = query_loop (h ! a) (idx - lowbit idx) (acc + c)"
        using less.hyps [OF m less.prems] .
      then show ?thesis using True less.prems Some
        by (subst query_heap.simps, subst query_loop.simps) (simp add: heap_get_def)
    qed
  qed
qed

lemma update_heap_sim:
  "0 < idx \<Longrightarrow> tree_at h r ft \<Longrightarrow>
     rel_option (\<lambda>h' ft'. tree_at h' r ft' \<and> same_outside r h h')
       (update_heap r h idx val) (FenwickTree_update ft idx val)"
proof (induction "nat (size_ft ft + 1 - idx)" arbitrary: idx h ft rule: less_induct)
  case less
  let ?c = "count_tree_ref r" and ?s = "sum_tree_ref r"
  have t: "?c < length h" "?s < length h" "?c \<noteq> ?s" "h ! ?c = count_tree ft"
    "h ! ?s = sum_tree ft" "size_ref r = size_ft ft"
    using less.prems(2) by (simp_all add: tree_at_def)
  show ?case
  proof (cases "idx \<le> size_ft ft")
    case False
    then have "update_heap r h idx val = Some h" "FenwickTree_update ft idx val = Some ft"
      using t(6) by (subst update_heap.simps, simp, subst FenwickTree_update.simps, simp)
    then show ?thesis using less.prems(2) by (simp add: same_outside_refl)
  next
    case True
    show ?thesis
    proof (cases "list_add (count_tree ft) idx 1")
      case None
      then have "update_heap r h idx val = None" "FenwickTree_update ft idx val = None"
        using True t
        by (subst update_heap.simps, simp add: heap_add_def,
            subst FenwickTree_update.simps, simp)
      then show ?thesis by simp
    next
      case (Some ct)
      let ?h1 = "h[?c := ct]"
      have a1: "heap_add h ?c idx 1 = Some ?h1" using t Some by (simp add: heap_add_def)
      have h1s: "?h1 ! ?s = sum_tree ft" using t by simp
      show ?thesis
      proof (cases "list_add (sum_tree ft) idx val")
        case None
        then have "update_heap r h idx val = None" "FenwickTree_update ft idx val = None"
          using True t a1 h1s Some
          by (subst update_heap.simps, simp add: heap_add_def,
              subst FenwickTree_update.simps, simp)
        then show ?thesis by simp
      next
        case st: (Some st)
        let ?h2 = "?h1[?s := st]"
        let ?ft2 = "ft\<lparr>count_tree := ct, sum_tree := st\<rparr>"
        have a2: "heap_add ?h1 ?s idx val = Some ?h2" using t st h1s by (simp add: heap_add_def)
        have u1: "update_heap r h idx val = update_heap r ?h2 (idx + lowbit idx) val"
          using True t(6) a1 a2 by (subst update_heap.simps) simp
        have u2: "FenwickTree_update ft idx val = FenwickTree_update ?ft2 (idx + lowbit idx) val"
          using True Some st by (subst FenwickTree_update.simps) simp
        have t2: "tree_at ?h2 r ?ft2" using t by (simp add: tree_at_def)
        have o2: "same_outside r h ?h2" by (simp add: same_outside_def)
        have l: "0 < lowbit idx" using lowbit_pos [OF less.prems(1)] by simp
        have m: "nat (size_ft ?ft2 + 1 - (idx + lowbit idx)) < nat (size_ft ft + 1 - idx)"
          using l True by simp
        have p: "0 < idx + lowbit idx" using l less.prems(1) by simp
        have ih: "rel_option (\<lambda>h' ft'. tree_at h' r ft' \<and> same_outside r ?h2 h')
            (update_heap r ?h2 (idx + lowbit idx) val)
            (FenwickTree_update ?ft2 (idx + lowbit idx) val)"
          using less.hyps [OF m p t2] .
        have "rel_option (\<lambda>h' ft'. tree_at h' r ft' \<and> same_outside r h h')
            (update_heap r ?h2 (idx + lowbit idx) val)
            (FenwickTree_update ?ft2 (idx + lowbit idx) val)"
          by (rule option.rel_mono_strong [OF ih]) (use o2 same_outside_trans in blast)
        then show ?thesis by (simp only: u1 u2)
      qed
    qed
  qed
qed

lemma value_to_rank_of_pos: "value_to_rank_of xs v = Some r \<Longrightarrow> 0 < r"
proof (induction xs arbitrary: r rule: rev_induct)
  case Nil
  then show ?case by (simp add: value_to_rank_of_Nil)
next
  case (snoc x xs)
  then show ?case by (cases "v = x") (auto simp: value_to_rank_of_snoc)
qed

lemma step_heap_sim:
  assumes pos: "\<And>v r. vr v = Some r \<Longrightarrow> 0 < r" and t: "tree_at h r ft"
  shows "rel_option (\<lambda>s' p'. snd s' = snd p' \<and> tree_at (fst s') r (fst p') \<and> same_outside r h (fst s'))
       (step_heap vr r (h, tot) v) (aggregate_step vr (ft, tot) v)"
proof (cases "vr v")
  case None
  then show ?thesis by (simp add: step_heap_def aggregate_step_def)
next
  case (Some rank)
  have rp: "0 < rank" using pos Some by blast
  have tr: "count_tree_ref r < length h" "sum_tree_ref r < length h"
    "h ! count_tree_ref r = count_tree ft" "h ! sum_tree_ref r = sum_tree ft"
    using t by (simp_all add: tree_at_def)
  have qc: "query_heap h (count_tree_ref r) (rank - 1) 0 = FenwickTree_query_count ft (rank - 1)"
    using query_heap_eq [OF tr(1)] tr(3) by (simp add: FenwickTree_query_count_def)
  have qs: "query_heap h (sum_tree_ref r) (rank - 1) 0 = FenwickTree_query_sum ft (rank - 1)"
    using query_heap_eq [OF tr(2)] tr(4) by (simp add: FenwickTree_query_sum_def)
  define q where "q = (if rank > 1 then
             do {
               smaller_count \<leftarrow> FenwickTree_query_count ft (rank - 1);
               smaller_sum \<leftarrow> FenwickTree_query_sum ft (rank - 1);
               let contribution = v * smaller_count - smaller_sum;
               Some (tot + contribution)
             }
           else Some tot)"
  have s1: "step_heap vr r (h, tot) v =
      q \<bind> (\<lambda>t'. update_heap r h rank v \<bind> (\<lambda>h'. Some (h', t')))"
    by (simp add: step_heap_def Some qc qs q_def)
  have s2: "aggregate_step vr (ft, tot) v =
      q \<bind> (\<lambda>t'. FenwickTree_update ft rank v \<bind> (\<lambda>ft'. Some (ft', t')))"
    by (simp add: aggregate_step_def Some q_def)
  have u: "rel_option (\<lambda>h' ft'. tree_at h' r ft' \<and> same_outside r h h')
       (update_heap r h rank v) (FenwickTree_update ft rank v)"
    by (rule update_heap_sim [OF rp t])
  show ?thesis
  proof (cases q)
    case None
    then show ?thesis by (simp add: s1 s2)
  next
    case q': (Some t')
    show ?thesis
      using u by (cases "update_heap r h rank v"; cases "FenwickTree_update ft rank v")
        (simp_all add: s1 s2 q')
  qed
qed

lemma pass_heap_sim:
  assumes pos: "\<And>v r. vr v = Some r \<Longrightarrow> 0 < r"
    and a: "a < length h0" "a \<noteq> count_tree_ref r" "a \<noteq> sum_tree_ref r"
  shows "same_outside r h0 h \<Longrightarrow> tree_at h r ft \<Longrightarrow>
     rel_option (\<lambda>s' p'. snd s' = snd p' \<and> tree_at (fst s') r (fst p') \<and> same_outside r h0 (fst s'))
       (pass_heap vr r a (h, tot) [j0..<length (h0 ! a)])
       (aggregate_loop vr (ft, tot) (drop j0 (h0 ! a)))"
proof (induction "length (h0 ! a) - j0" arbitrary: j0 h ft tot)
  case 0
  then show ?case by simp
next
  case (Suc m)
  let ?arr = "h0 ! a"
  have j: "j0 < length ?arr" using Suc.hyps(2) by simp
  have ha: "h ! a = ?arr" "a < length h" using Suc.prems(1) a by (simp_all add: same_outside_def)
  have g: "heap_get h a (int j0) = Some (?arr ! j0)"
    using j ha by (simp add: heap_get_def list_get_def list_index_def)
  have dr: "drop j0 ?arr = ?arr ! j0 # drop (Suc j0) ?arr"
    using j by (simp add: Cons_nth_drop_Suc)
  have up: "[j0..<length ?arr] = j0 # [Suc j0..<length ?arr]"
    using j by (simp add: upt_conv_Cons)
  have st: "rel_option (\<lambda>s' p'. snd s' = snd p' \<and> tree_at (fst s') r (fst p') \<and> same_outside r h (fst s'))
       (step_heap vr r (h, tot) (?arr ! j0)) (aggregate_step vr (ft, tot) (?arr ! j0))"
    by (rule step_heap_sim [OF pos Suc.prems(2)])
  show ?case
  proof (cases "step_heap vr r (h, tot) (?arr ! j0)")
    case None
    then have "aggregate_step vr (ft, tot) (?arr ! j0) = None" using st by (simp add: rel_option_None1)
    then show ?thesis using None by (simp add: up dr g)
  next
    case (Some s')
    then obtain p' where p': "aggregate_step vr (ft, tot) (?arr ! j0) = Some p'"
      and r': "snd s' = snd p'" "tree_at (fst s') r (fst p')" "same_outside r h (fst s')"
      using st by (auto simp: option_rel_Some1)
    have m: "m = length ?arr - Suc j0" using Suc.hyps(2) by simp
    have o: "same_outside r h0 (fst s')" using same_outside_trans [OF Suc.prems(1) r'(3)] .
    have "rel_option (\<lambda>s' p'. snd s' = snd p' \<and> tree_at (fst s') r (fst p') \<and> same_outside r h0 (fst s'))
       (pass_heap vr r a (fst s', snd p') [Suc j0..<length ?arr])
       (aggregate_loop vr (fst p', snd p') (drop (Suc j0) ?arr))"
      using Suc.hyps(1) [OF m o r'(2)] .
    then show ?thesis using Some p' r'(1)
      by (cases s'; cases p') (simp add: up dr g)
  qed
qed

lemma FenwickTree_new_tree_at:
  "FenwickTree_new h k = (r, h2) \<Longrightarrow>
     h2 = h @ [replicate (nat (k + 1)) 0, replicate (nat (k + 1)) 0] \<and>
     count_tree_ref r = length h \<and> sum_tree_ref r = Suc (length h) \<and>
     tree_at h2 r (FenwickTree_init k)"
  by (auto simp: FenwickTree_new_def heap_new_def tree_at_def FenwickTree_init_def nth_append)

lemma optimized_heap_result:
  assumes a: "a < length h"
  shows "\<exists>h'. calculate_positive_differences_optimized_heap h a =
        Some (positive_difference_sum (h ! a), h') \<and>
      take (length h) h' = h"
proof (cases "length (h ! a) \<le> 1")
  case True
  then have "positive_difference_sum (h ! a) = 0"
    by (cases "h ! a") (auto simp: positive_difference_sum_def)
  then show ?thesis
    using True a by (simp add: calculate_positive_differences_optimized_heap_def)
next
  case False
  let ?arr = "h ! a"
  let ?sv = "sorted_list_of_set (set ?arr)"
  let ?h1 = "h @ [?sv]"
  let ?k = "int (length ?sv)"
  obtain r h2 where new: "FenwickTree_new ?h1 ?k = (r, h2)" by (cases "FenwickTree_new ?h1 ?k")
  have h2: "h2 = ?h1 @ [replicate (nat (?k + 1)) 0, replicate (nat (?k + 1)) 0]"
    and c: "count_tree_ref r = length ?h1" and s: "sum_tree_ref r = Suc (length ?h1)"
    and t: "tree_at h2 r (FenwickTree_init ?k)"
    using FenwickTree_new_tree_at [OF new] by blast+
  have a2: "a < length h2" "a \<noteq> count_tree_ref r" "a \<noteq> sum_tree_ref r"
    using a h2 c s by simp_all
  have arr2: "h2 ! a = ?arr" using a h2 by (simp add: nth_append)
  have pos: "\<And>v q. rank_dict ?arr v = Some q \<Longrightarrow> 0 < q" by (rule value_to_rank_of_pos)
  have sim: "rel_option (\<lambda>s' p'. snd s' = snd p' \<and> tree_at (fst s') r (fst p') \<and> same_outside r h2 (fst s'))
       (pass_heap (rank_dict ?arr) r a (h2, 0) [0..<length ?arr])
       (aggregate_loop (rank_dict ?arr) (FenwickTree_init ?k, 0) ?arr)"
    using pass_heap_sim [where vr = "rank_dict ?arr" and ?j0.0 = 0 and tot = 0,
        OF pos a2 same_outside_refl t] arr2 by simp
  obtain ftn where pure: "aggregate_loop (rank_dict ?arr) (initial_state ?arr) ?arr =
        Some (ftn, positive_difference_sum ?arr)"
    using aggregate_prefix [of ?arr ?arr] by auto
  obtain s' where run: "pass_heap (rank_dict ?arr) r a (h2, 0) [0..<length ?arr] = Some s'"
    and res: "snd s' = positive_difference_sum ?arr" and out: "same_outside r h2 (fst s')"
    using sim pure by (auto simp: option_rel_Some2)
  have len: "length (fst s') = length h + 3" using out h2 by (simp add: same_outside_def)
  have "take (length h) (fst s') = h"
  proof (rule nth_equalityI)
    show "length (take (length h) (fst s')) = length h" using len by simp
  next
    fix b assume "b < length (take (length h) (fst s'))"
    then have b: "b < length h" by simp
    then have "fst s' ! b = h2 ! b" using out c s h2 by (simp add: same_outside_def)
    then show "take (length h) (fst s') ! b = h ! b" using b h2 by (simp add: nth_append)
  qed
  moreover have "calculate_positive_differences_optimized_heap h a = Some (snd s', fst s')"
    using False a new run
    by (simp add: calculate_positive_differences_optimized_heap_def heap_new_def Let_def)
  ultimately show ?thesis using res by simp
qed

lemma aliased_tree_changes_list:
  "update_heap \<lparr>size_ref = 3, count_tree_ref = 0, sum_tree_ref = 1\<rparr>
     [[1, 3, 2, 4], [0, 0, 0, 0]] 1 5 = Some [[1, 4, 3, 4], [0, 5, 5, 0]]"
  by code_simp

text \<open>
  C9: the call has no effect on the objects that exist when it starts, and keeps
  nothing. On every heap \<open>h\<close> and for every reference \<open>a\<close> to a list of \<open>h\<close>, the call
  returns; the heap it leaves is \<open>h\<close> with new objects behind it, so the caller's list
  and every other object of \<open>h\<close> hold what they held (the writes of \<open>update\<close> go to the
  two arrays the call created; lemma \<open>aliased_tree_changes_list\<close> shows the same writes
  changing the caller's list when an array is that list). The result is the value of
  \<open>calculate_positive_differences_optimized\<close> on the contents of the list, the same for
  \<open>calculate_with_coordinate_compression\<close>, which runs the same statements. A second call
  on the heap the first one left returns the same result, and so does a call on any
  heap, through any reference, to a list with the same contents: the result depends on
  nothing that an earlier call left behind.
\<close>

theorem call_leaves_objects:
  "a < length h \<Longrightarrow>
     \<exists>r h' h''.
       calculate_positive_differences_optimized_heap h a = Some (r, h') \<and>
       take (length h) h' = h \<and>
       calculate_positive_differences_optimized (h ! a) = Some r \<and>
       calculate_with_coordinate_compression (h ! a) = Some r \<and>
       calculate_positive_differences_optimized_heap h' a = Some (r, h'') \<and>
       (\<forall>g b. b < length g \<and> g ! b = h ! a \<longrightarrow>
          (\<exists>g'. calculate_positive_differences_optimized_heap g b = Some (r, g')))"
proof -
  assume a: "a < length h"
  obtain h' where c1: "calculate_positive_differences_optimized_heap h a =
        Some (positive_difference_sum (h ! a), h')"
      and f1: "take (length h) h' = h"
    using optimized_heap_result [OF a] by blast
  have a': "a < length h'" using f1 a by (metis length_take min_less_iff_conj)
  have same: "h' ! a = h ! a" using f1 a by (metis nth_take)
  obtain h'' where c2: "calculate_positive_differences_optimized_heap h' a =
        Some (positive_difference_sum (h ! a), h'')"
    using optimized_heap_result [OF a'] same by auto
  have any: "\<forall>g b. b < length g \<and> g ! b = h ! a \<longrightarrow>
      (\<exists>g'. calculate_positive_differences_optimized_heap g b =
         Some (positive_difference_sum (h ! a), g'))"
  proof (intro allI impI)
    fix g b assume "b < length g \<and> g ! b = h ! a"
    then show "\<exists>g'. calculate_positive_differences_optimized_heap g b =
         Some (positive_difference_sum (h ! a), g')"
      using optimized_heap_result [of b g] by auto
  qed
  show ?thesis
    using c1 f1 c2 any optimized_eq_spec [of "h ! a"] coordinate_compression_eq_optimized [of "h ! a"]
    by auto
qed

theorem call_leaves_objects_witness:
  "(1::nat) < length [[7, 7], [1, 3, 2, 4 :: int]] \<and>
   (\<exists>h'. calculate_positive_differences_optimized_heap [[7, 7], [1, 3, 2, 4]] 1 = Some (9, h') \<and>
      take 2 h' = [[7, 7], [1, 3, 2, 4]])"
proof -
  have h: "(1::nat) < length [[7, 7], [1, 3, 2, 4 :: int]]" by simp
  have v: "calculate_positive_differences_optimized [1, 3, 2, 4] = Some 9" by code_simp
  obtain r h' where
    "calculate_positive_differences_optimized_heap [[7, 7], [1, 3, 2, 4]] 1 = Some (r, h')"
    "take (length [[7, 7], [1, 3, 2, 4 :: int]]) h' = [[7, 7], [1, 3, 2, 4]]"
    "calculate_positive_differences_optimized ([[7, 7], [1, 3, 2, 4]] ! 1) = Some r"
    using call_leaves_objects [OF h] by blast
  then show ?thesis using v by (auto simp: numeral_2_eq_2)
qed

subsection \<open>Prefix queries after a sequence of insertions\<close>

lemma FenwickTree_inserts_correct:
  "dense_inv k ft (bucket (\<lambda>_. 1) (\<lambda>p. Some (fst p)) qs) (bucket snd (\<lambda>p. Some (fst p)) qs) \<Longrightarrow>
   \<forall>p\<in>set ps. 1 \<le> fst p \<Longrightarrow>
   \<exists>ft'. FenwickTree_inserts ft ps = Some ft' \<and>
     dense_inv k ft' (bucket (\<lambda>_. 1) (\<lambda>p. Some (fst p)) (qs @ ps))
       (bucket snd (\<lambda>p. Some (fst p)) (qs @ ps))"
proof (induction ps arbitrary: ft qs)
  case Nil
  then show ?case by simp
next
  case (Cons p ps)
  obtain r v where p: "p = (r, v)" by (cases p)
  have r: "0 < r" using Cons.prems(2) p by simp
  obtain ft1 where u: "FenwickTree_update ft r v = Some ft1"
    and d: "dense_inv k ft1
        ((bucket (\<lambda>_. 1) (\<lambda>p. Some (fst p)) qs)(r := bucket (\<lambda>_. 1) (\<lambda>p. Some (fst p)) qs r + 1))
        ((bucket snd (\<lambda>p. Some (fst p)) qs)(r := bucket snd (\<lambda>p. Some (fst p)) qs r + v))"
    using FenwickTree_update_correct [OF Cons.prems(1) r, of v] by blast
  have d': "dense_inv k ft1 (bucket (\<lambda>_. 1) (\<lambda>p. Some (fst p)) (qs @ [p]))
      (bucket snd (\<lambda>p. Some (fst p)) (qs @ [p]))"
    using d p by (simp add: bucket_snoc [where r = r])
  have "\<exists>ft'. FenwickTree_inserts ft1 ps = Some ft' \<and>
     dense_inv k ft' (bucket (\<lambda>_. 1) (\<lambda>p. Some (fst p)) ((qs @ [p]) @ ps))
       (bucket snd (\<lambda>p. Some (fst p)) ((qs @ [p]) @ ps))"
    using Cons.IH [OF d'] Cons.prems(2) by simp
  then show ?case using u p by simp
qed

lemma bucket_prefix_fst:
  "(\<Sum>r\<in>{0<..q}. bucket f (\<lambda>p. Some (fst p)) ps r) =
     (\<Sum>p\<leftarrow>ps. if 0 < fst p \<and> fst p \<le> q then f p else 0)"
  by (simp add: sum_bucket_prefix)

lemma FenwickTree_prefix_exact:
  assumes "0 \<le> k" "\<forall>p\<in>set ps. 1 \<le> fst p \<and> fst p \<le> k" "0 \<le> r" "r \<le> k"
  shows "\<exists>ft. FenwickTree_inserts (FenwickTree_init k) ps = Some ft \<and>
     FenwickTree_query_count ft r = Some (int (length (filter (\<lambda>p. fst p \<le> r) ps))) \<and>
     FenwickTree_query_sum ft r = Some (\<Sum>p\<leftarrow>filter (\<lambda>p. fst p \<le> r) ps. snd p)"
proof -
  have pos: "\<forall>p\<in>set ps. 1 \<le> fst p" using assms(2) by blast
  have i0: "dense_inv k (FenwickTree_init k) (bucket (\<lambda>_. 1) (\<lambda>p. Some (fst p)) [])
      (bucket snd (\<lambda>p. Some (fst p)) ([] :: (int \<times> int) list))"
    using FenwickTree_init_inv [OF assms(1)] by (simp add: bucket_Nil)
  obtain ft where ins: "FenwickTree_inserts (FenwickTree_init k) ps = Some ft"
    and d: "dense_inv k ft (bucket (\<lambda>_. 1) (\<lambda>p. Some (fst p)) ps) (bucket snd (\<lambda>p. Some (fst p)) ps)"
    using FenwickTree_inserts_correct [OF i0 pos] by auto
  have c1: "(\<Sum>p\<leftarrow>ps. if 0 < fst p \<and> fst p \<le> r then 1 else 0) =
      int (length (filter (\<lambda>p. fst p \<le> r) ps))"
    using pos by (induction ps) auto
  have c2: "(\<Sum>p\<leftarrow>ps. if 0 < fst p \<and> fst p \<le> r then snd p else 0) =
      (\<Sum>p\<leftarrow>filter (\<lambda>p. fst p \<le> r) ps. snd p)"
    using pos by (induction ps) auto
  show ?thesis
    using ins FenwickTree_query_correct [OF d assms(3,4)] c1 c2
    by (simp add: bucket_prefix_fst)
qed

subsection \<open>The dictionary-backed tree\<close>

lemma lowbit_power: "0 < c \<Longrightarrow> \<exists>k. lowbit c = 2 ^ k"
proof (induction "nat c" arbitrary: c rule: less_induct)
  case less
  show ?case
  proof (cases "odd c")
    case True
    then have "lowbit c = 2 ^ 0" by (simp add: lowbit_odd)
    then show ?thesis by blast
  next
    case False
    then have e: "even c" by simp
    have c2: "0 < c div 2" using less.prems e by presburger
    have m: "nat (c div 2) < nat c" using less.prems by simp
    obtain k where "lowbit (c div 2) = 2 ^ k" using less.hyps [OF m c2] by blast
    then have "lowbit c = 2 ^ Suc k" using lowbit_even [OF e] by simp
    then show ?thesis by blast
  qed
qed

lemma lowbit_above_1000:
  assumes "0 < c" "1000 < lowbit c"
  shows "1024 \<le> lowbit c"
proof -
  obtain k where k: "lowbit c = 2 ^ k" using lowbit_power [OF assms(1)] by blast
  have "10 \<le> k"
  proof (rule ccontr)
    assume "\<not> 10 \<le> k"
    then have "k \<le> 9" by simp
    then have "(2::int) ^ k \<le> 2 ^ 9" by (rule power_increasing) simp
    then show False using assms(2) k by simp
  qed
  then have "(2::int) ^ 10 \<le> 2 ^ k" by (rule power_increasing) simp
  then show ?thesis using k by simp
qed

lemma compact_query_loop_correct:
  assumes inv: "fen_inv B tree a"
  shows "0 \<le> q \<Longrightarrow> q \<le> B \<Longrightarrow>
    compact_query_loop tree q acc = Some (acc + (\<Sum>i\<in>{0<..q}. a i))"
proof (induction "nat q" arbitrary: q acc rule: less_induct)
  case less
  show ?case
  proof (cases "q = 0")
    case True
    then show ?thesis by (subst compact_query_loop.simps) simp
  next
    case False
    then have q: "0 < q" using less.prems by simp
    have l: "0 < lowbit q" "lowbit q \<le> q" using lowbit_pos [OF q] by simp_all
    have cell: "tree q = (\<Sum>i\<in>cover q. a i)"
      using inv q less.prems unfolding fen_inv_def by simp
    have ih: "compact_query_loop tree (q - lowbit q) (acc + tree q) =
        Some (acc + tree q + (\<Sum>i\<in>{0<..q - lowbit q}. a i))"
      using less.hyps [of "q - lowbit q" "acc + tree q"] l q less.prems by simp
    have "compact_query_loop tree q acc = compact_query_loop tree (q - lowbit q) (acc + tree q)"
      by (subst compact_query_loop.simps) (simp add: q)
    then show ?thesis using ih cell prefix_split [OF q, of a] by simp
  qed
qed

lemma compact_update_loop_correct:
  "fen_part B (count_tree_c ft) a 1 p c \<Longrightarrow>
   fen_part B (sum_tree_c ft) b v p c \<Longrightarrow>
   0 < c \<Longrightarrow> p \<in> cover c \<Longrightarrow> p \<le> max_idx ft \<Longrightarrow> B \<le> 1023 \<Longrightarrow>
   \<exists>ft'. compact_update_loop ft c v = Some ft' \<and> max_idx ft' = max_idx ft \<and>
      fen_inv B (count_tree_c ft') (a(p := a p + 1)) \<and>
      fen_inv B (sum_tree_c ft') (b(p := b p + v))"
proof (induction "nat (max_idx ft + 1001 - c)" arbitrary: c ft rule: less_induct)
  case less
  show ?case
  proof (cases "c \<le> max_idx ft + 1000")
    case False
    have stop: "compact_update_loop ft c v = Some ft"
      using False by (subst compact_update_loop.simps) simp
    have "c - lowbit c < p" using less.prems(4) by (simp add: cover_def)
    then have "1000 < lowbit c" using False less.prems(5) by simp
    then have "1024 \<le> lowbit c" using lowbit_above_1000 [OF less.prems(3)] by simp
    then have "B < c" using lowbit_pos [OF less.prems(3)] less.prems(6) by simp
    then have "fen_inv B (count_tree_c ft) (a(p := a p + 1))"
      "fen_inv B (sum_tree_c ft) (b(p := b p + v))"
      using less.prems(1,2) by (simp_all add: fen_part_end)
    then show ?thesis using stop by simp
  next
    case True
    let ?ft' = "ft\<lparr>count_tree_c := (count_tree_c ft)(c := count_tree_c ft c + 1),
        sum_tree_c := (sum_tree_c ft)(c := sum_tree_c ft c + v)\<rparr>"
    have l: "0 < lowbit c" using lowbit_pos [OF less.prems(3)] by simp
    have step: "compact_update_loop ft c v = compact_update_loop ?ft' (c + lowbit c) v"
      by (subst compact_update_loop.simps) (simp add: True less.prems(3))
    have pa: "fen_part B (count_tree_c ?ft') a 1 p (c + lowbit c)"
      using fen_part_step [OF less.prems(1) less.prems(3) less.prems(4)] by simp
    have pb: "fen_part B (sum_tree_c ?ft') b v p (c + lowbit c)"
      using fen_part_step [OF less.prems(2) less.prems(3) less.prems(4)] by simp
    have m: "nat (max_idx ?ft' + 1001 - (c + lowbit c)) < nat (max_idx ft + 1001 - c)"
      using l True by simp
    have "\<exists>ft''. compact_update_loop ?ft' (c + lowbit c) v = Some ft'' \<and>
        max_idx ft'' = max_idx ?ft' \<and>
        fen_inv B (count_tree_c ft'') (a(p := a p + 1)) \<and>
        fen_inv B (sum_tree_c ft'') (b(p := b p + v))"
      by (rule less.hyps [OF m pa pb])
         (use less.prems l cover_next [OF less.prems(3) less.prems(4)] in simp_all)
    then show ?thesis using step by simp
  qed
qed

lemma CompactFenwickTree_update_correct:
  assumes "fen_inv B (count_tree_c ft) a" "fen_inv B (sum_tree_c ft) b" "0 < p" "B \<le> 1023"
  shows "\<exists>ft'. CompactFenwickTree_update ft p v = Some ft' \<and>
      fen_inv B (count_tree_c ft') (a(p := a p + 1)) \<and>
      fen_inv B (sum_tree_c ft') (b(p := b p + v))"
  using compact_update_loop_correct [of B "ft\<lparr>max_idx := max (max_idx ft) p\<rparr>" a p p b v] assms
  by (auto simp: CompactFenwickTree_update_def fen_part_start cover_self)

lemma cagg_update:
  assumes "cagg_inv vr B ft xs" "vr v = Some r" "0 < r" "B \<le> 1023"
  shows "\<exists>ft'. CompactFenwickTree_update ft r v = Some ft' \<and> cagg_inv vr B ft' (xs @ [v])"
  using CompactFenwickTree_update_correct [of B ft _ _ r v] assms
  by (simp add: cagg_inv_def bucket_snoc)

lemma compact_step_correct:
  assumes rk: "rank_ok vr S k" and xs: "set xs \<subseteq> S" and v: "v \<in> S"
    and inv: "cagg_inv vr B ft xs" and B: "B \<le> 1023" and rB: "the (vr v) - 1 \<le> B"
  shows "\<exists>ft'. compact_step vr (ft, tot) v =
        Some (ft', tot + (\<Sum>x\<leftarrow>xs. if v > x then v - x else 0)) \<and>
      cagg_inv vr B ft' (xs @ [v])"
proof -
  obtain r where r: "vr v = Some r" "1 \<le> r" "r \<le> k"
    using rk v unfolding rank_ok_def by blast
  have rB': "r - 1 \<le> B" using rB r by simp
  obtain ft' where u: "CompactFenwickTree_update ft r v = Some ft'"
    and inv': "cagg_inv vr B ft' (xs @ [v])"
    using cagg_update [OF inv r(1) _ B] r(2) by auto
  have qc: "CompactFenwickTree_query_count ft (r - 1) = Some (\<Sum>x\<leftarrow>xs. if x < v then 1 else 0)"
    using compact_query_loop_correct [of B "count_tree_c ft" "bucket (\<lambda>_. 1) vr xs" "r - 1" 0] inv r rB'
      smaller_prefix [OF rk xs v r(1), of "\<lambda>_. 1"]
    by (simp add: cagg_inv_def CompactFenwickTree_query_count_def)
  have qs: "CompactFenwickTree_query_sum ft (r - 1) = Some (\<Sum>x\<leftarrow>xs. if x < v then x else 0)"
    using compact_query_loop_correct [of B "sum_tree_c ft" "bucket (\<lambda>x. x) vr xs" "r - 1" 0] inv r rB'
      smaller_prefix [OF rk xs v r(1), of "\<lambda>x. x"]
    by (simp add: cagg_inv_def CompactFenwickTree_query_sum_def)
  show ?thesis
  proof (cases "r > 1")
    case True
    have "compact_step vr (ft, tot) v =
        Some (ft', tot + (v * (\<Sum>x\<leftarrow>xs. if x < v then 1 else 0) - (\<Sum>x\<leftarrow>xs. if x < v then x else 0)))"
      by (simp add: compact_step_def r(1) True qc qs u)
    then show ?thesis using inv' by (simp only: contribution_eq) simp
  next
    case False
    then have r1: "r = 1" using r by simp
    have none: "\<And>x. x \<in> set xs \<Longrightarrow> \<not> x < v"
    proof
      fix x assume "x \<in> set xs" "x < v"
      then have "\<exists>r'. vr x = Some r' \<and> 0 < r' \<and> r' \<le> r - 1"
        using rank_below_iff [OF rk _ v r(1), of x] xs by auto
      then show False using r1 by auto
    qed
    have z: "(\<Sum>x\<leftarrow>xs. if v > x then v - x else 0) = 0"
      using none by (induction xs) auto
    have "compact_step vr (ft, tot) v = Some (ft', tot)"
      using u by (simp add: compact_step_def r(1) r1)
    then show ?thesis using inv' z by simp
  qed
qed

lemma compact_loop_correct:
  assumes rk: "rank_ok vr S k" and B: "B \<le> 1023"
  shows "set xs \<subseteq> S \<Longrightarrow> set rest \<subseteq> S \<Longrightarrow> \<forall>v\<in>set rest. the (vr v) - 1 \<le> B \<Longrightarrow>
    cagg_inv vr B ft xs \<Longrightarrow>
    \<exists>ft'. compact_loop vr (ft, tot) rest =
        Some (ft', tot + (positive_difference_sum (xs @ rest) - positive_difference_sum xs)) \<and>
      cagg_inv vr B ft' (xs @ rest)"
proof (induction rest arbitrary: xs ft tot)
  case Nil
  then show ?case by simp
next
  case (Cons v rest)
  have v: "v \<in> S" "the (vr v) - 1 \<le> B" using Cons.prems by simp_all
  obtain ft1 where s1: "compact_step vr (ft, tot) v =
        Some (ft1, tot + (\<Sum>x\<leftarrow>xs. if v > x then v - x else 0))"
      and i1: "cagg_inv vr B ft1 (xs @ [v])"
    using compact_step_correct [OF rk Cons.prems(1) v(1) Cons.prems(4) B v(2), of tot] by blast
  have p1: "set (xs @ [v]) \<subseteq> S" using Cons.prems by simp
  have p2: "set rest \<subseteq> S" using Cons.prems by simp
  have p3: "\<forall>v\<in>set rest. the (vr v) - 1 \<le> B" using Cons.prems by simp
  obtain ft' where s2: "compact_loop vr (ft1, tot + (\<Sum>x\<leftarrow>xs. if v > x then v - x else 0)) rest =
        Some (ft', tot + (\<Sum>x\<leftarrow>xs. if v > x then v - x else 0) +
          (positive_difference_sum ((xs @ [v]) @ rest) - positive_difference_sum (xs @ [v])))"
      and i2: "cagg_inv vr B ft' ((xs @ [v]) @ rest)"
    using Cons.IH [OF p1 p2 p3 i1] by blast
  have "compact_loop vr (ft, tot) (v # rest) =
      Some (ft', tot + (positive_difference_sum (xs @ v # rest) - positive_difference_sum xs))"
    using s1 s2 by (simp add: positive_difference_sum_snoc)
  then show ?case using i2 by simp
qed

text \<open>
  The two loops of the dictionary-backed tree end on every input: a dictionary read
  cannot fail, and \<open>idx\<close> moves by \<open>lowbit idx > 0\<close> while it is positive.
\<close>

lemma compact_query_loop_total: "\<exists>r. compact_query_loop tree idx acc = Some r"
proof (induction "nat idx" arbitrary: idx acc rule: less_induct)
  case less
  show ?case
  proof (cases "idx > 0")
    case False
    then show ?thesis by (subst compact_query_loop.simps) simp
  next
    case True
    have "nat (idx - lowbit idx) < nat idx" using lowbit_pos [OF True] True by simp
    then obtain r where "compact_query_loop tree (idx - lowbit idx) (acc + tree idx) = Some r"
      using less.hyps by blast
    then show ?thesis using True by (subst compact_query_loop.simps) simp
  qed
qed

lemma compact_update_loop_total: "\<exists>ft'. compact_update_loop ft idx val = Some ft'"
proof (induction "nat (max_idx ft + 1001 - idx)" arbitrary: idx ft rule: less_induct)
  case less
  show ?case
  proof (cases "idx > 0 \<and> idx \<le> max_idx ft + 1000")
    case False
    then have "compact_update_loop ft idx val = Some ft"
      by (subst compact_update_loop.simps) auto
    then show ?thesis by blast
  next
    case True
    let ?ft' = "ft\<lparr>count_tree_c := (count_tree_c ft)(idx := count_tree_c ft idx + 1),
        sum_tree_c := (sum_tree_c ft)(idx := sum_tree_c ft idx + val)\<rparr>"
    have "0 < lowbit idx" using lowbit_pos [of idx] True by simp
    then have "nat (max_idx ?ft' + 1001 - (idx + lowbit idx)) < nat (max_idx ft + 1001 - idx)"
      using True by simp
    then obtain ft' where "compact_update_loop ?ft' (idx + lowbit idx) val = Some ft'"
      using less.hyps by blast
    then show ?thesis using True by (subst compact_update_loop.simps) simp
  qed
qed

lemma clear_unused_id: "clear_unused ft = ft"
proof -
  have "(\<lambda>k. if count_tree_c ft k \<noteq> 0 then count_tree_c ft k else 0) = count_tree_c ft"
    "(\<lambda>k. if sum_tree_c ft k \<noteq> 0 then sum_tree_c ft k else 0) = sum_tree_c ft"
    by auto
  then show ?thesis by (simp add: clear_unused_def)
qed

lemma compact_loop_append:
  "compact_loop vr s (xs @ ys) = compact_loop vr s xs \<bind> (\<lambda>s'. compact_loop vr s' ys)"
  by (induction xs arbitrary: s) simp_all

declare batch_loop.simps [simp del]

lemma batch_loop_flat:
  "0 < batch_size \<Longrightarrow>
     batch_loop vr arr batch_size batch_start s = compact_loop vr s (drop batch_start arr)"
proof (induction "length arr - batch_start" arbitrary: batch_start s rule: less_induct)
  case less
  show ?case
  proof (cases "batch_start < length arr")
    case False
    then show ?thesis using less.prems by (subst batch_loop.simps) simp
  next
    case True
    let ?e = "min (batch_start + batch_size) (length arr)"
    let ?b = "take (?e - batch_start) (drop batch_start arr)"
    have split: "drop batch_start arr = ?b @ drop (batch_start + batch_size) arr"
    proof (cases "batch_start + batch_size \<le> length arr")
      case True
      then have "?e - batch_start = batch_size" by simp
      then show ?thesis
        using append_take_drop_id [of batch_size "drop batch_start arr", symmetric]
        by (simp add: add.commute)
    next
      case False
      then have "?e = length arr" by simp
      then show ?thesis using False by simp
    qed
    have m: "length arr - (batch_start + batch_size) < length arr - batch_start"
      using True less.prems by simp
    show ?thesis
    proof (cases "compact_loop vr s ?b")
      case None
      have "batch_loop vr arr batch_size batch_start s = None"
        using True less.prems None by (subst batch_loop.simps) (simp add: Let_def)
      moreover have "compact_loop vr s (drop batch_start arr) = None"
        by (subst split) (simp add: compact_loop_append None)
      ultimately show ?thesis by simp
    next
      case (Some s')
      obtain ft t where s': "s' = (ft, t)" by (cases s')
      have "batch_loop vr arr batch_size batch_start s =
          batch_loop vr arr batch_size (batch_start + batch_size) (ft, t)"
        using True less.prems Some s'
        by (subst batch_loop.simps) (simp add: Let_def clear_unused_id)
      also have "\<dots> = compact_loop vr (ft, t) (drop (batch_start + batch_size) arr)"
        using less.hyps [OF m less.prems] .
      also have "\<dots> = compact_loop vr s (drop batch_start arr)"
        by (subst split) (simp add: compact_loop_append Some s')
      finally show ?thesis .
    qed
  qed
qed

lemma memory_optimized_unfold:
  "1 < length arr \<Longrightarrow>
     calculate_positive_differences_memory_optimized arr =
       map_option snd (compact_loop (rank_dict arr) (CompactFenwickTree_init, 0) arr)"
proof -
  assume n: "1 < length arr"
  have g: "fst (get_unique_values_streaming arr) = rank_dict arr"
    by (rule get_unique_values_streaming_fst)
  have bs: "0 < min 10000 (length arr div 10 + 1)" by simp
  show ?thesis
    using n g batch_loop_flat [OF bs, of "rank_dict arr" arr 0]
    by (simp add: calculate_positive_differences_memory_optimized_def Let_def case_prod_beta)
qed

lemma cagg_inv_init: "cagg_inv vr B CompactFenwickTree_init []"
  by (simp add: cagg_inv_def CompactFenwickTree_init_def fen_inv_def bucket_Nil)

lemma memory_optimized_small:
  assumes "card (set arr) \<le> 1024"
  shows "calculate_positive_differences_memory_optimized arr =
    Some (calculate_positive_differences_naive arr)"
proof (cases "length arr \<le> 1")
  case True
  then have "positive_difference_sum arr = 0"
    by (cases arr) (auto simp: positive_difference_sum_def)
  then show ?thesis
    using True by (simp add: calculate_positive_differences_memory_optimized_def naive_eq_spec)
next
  case False
  let ?k = "int (length (sorted_list_of_set (set arr)))"
  have rk: "rank_ok (rank_dict arr) (set arr) ?k" by (rule rank_ok_arr)
  have k: "?k \<le> 1024" using assms by simp
  have small: "\<forall>v\<in>set arr. the (rank_dict arr v) - 1 \<le> 1023"
  proof
    fix v assume "v \<in> set arr"
    then obtain r where "rank_dict arr v = Some r" "r \<le> ?k"
      using rk unfolding rank_ok_def by blast
    then show "the (rank_dict arr v) - 1 \<le> 1023" using k by simp
  qed
  obtain ft' where "compact_loop (rank_dict arr) (CompactFenwickTree_init, 0) arr =
      Some (ft', 0 + (positive_difference_sum ([] @ arr) - positive_difference_sum []))"
    using compact_loop_correct [OF rk _ _ _ small cagg_inv_init, where tot = 0] by auto
  then show ?thesis
    using False by (simp add: memory_optimized_unfold positive_difference_sum_Nil naive_eq_spec)
qed

subsection \<open>The clamp of the dictionary-backed tree at 1025 distinct values\<close>

lemma first_insert_missing_count:
  "CompactFenwickTree_update CompactFenwickTree_init 1 0 \<bind>
    (\<lambda>ft. CompactFenwickTree_query_count ft 1024) = Some 0"
  by code_simp

lemma first_insert_missing_sum:
  "CompactFenwickTree_update CompactFenwickTree_init 1 0 \<bind>
    (\<lambda>ft. CompactFenwickTree_query_sum ft 1024) = Some 0"
  by code_simp

lemma sorted_values_1025: "sorted_list_of_set (set (0 # 1024 # [1..1023])) = [0..1024]"
proof -
  have "set (0 # 1024 # [1..1023]) = set [0..1024]" by auto
  then show ?thesis by (simp only: sorted_list_of_set.idem_if_sorted_distinct sorted_upto distinct_upto)
qed

lemma rank_dict_1025:
  assumes "0 \<le> v" "v \<le> 1024"
  shows "rank_dict (0 # 1024 # [1..1023]) v = Some (v + 1)"
proof -
  have i: "nat v < length [0..1024]" using assms by simp
  have "[0..1024] ! nat v = v" using assms by simp
  then show ?thesis
    using value_to_rank_of_nth [OF distinct_upto i] assms by (simp only: sorted_values_1025) simp
qed

lemma memory_optimized_1025:
  "calculate_positive_differences_memory_optimized (0 # 1024 # [1..1023]) =
     Some (calculate_positive_differences_naive (0 # 1024 # [1..1023]) - 1024)"
proof -
  let ?arr = "0 # 1024 # [1..1023]"
  define vr where "vr = rank_dict ?arr"
  have rk: "rank_ok vr (set ?arr) (int (length (sorted_list_of_set (set ?arr))))"
    unfolding vr_def by (rule rank_ok_arr)
  have r0: "vr 0 = Some 1" unfolding vr_def using rank_dict_1025 [of 0] by simp
  have r1: "vr 1024 = Some 1025" unfolding vr_def using rank_dict_1025 [of 1024] by simp
  \<comment> \<open>the first element, 0 at rank 1\<close>
  obtain ft1 where u1: "CompactFenwickTree_update CompactFenwickTree_init 1 0 = Some ft1"
    and i1: "cagg_inv vr 1023 ft1 ([] @ [0])"
    using cagg_update [of vr 1023 CompactFenwickTree_init "[]" 0 1] cagg_inv_init r0 by auto
  have s1: "compact_step vr (CompactFenwickTree_init, 0) 0 = Some (ft1, 0)"
    using u1 by (simp add: compact_step_def r0)
  \<comment> \<open>the second element, 1024 at rank 1025: the cell 1024 was never written\<close>
  have qc: "CompactFenwickTree_query_count ft1 1024 = Some 0"
    using first_insert_missing_count u1 by simp
  have qs: "CompactFenwickTree_query_sum ft1 1024 = Some 0"
    using first_insert_missing_sum u1 by simp
  obtain ft2 where u2: "CompactFenwickTree_update ft1 1025 1024 = Some ft2"
    and i2: "cagg_inv vr 1023 ft2 (([] @ [0]) @ [1024])"
    using cagg_update [of vr 1023 ft1 "[] @ [0]" 1024 1025] i1 r1 by auto
  have s2: "compact_step vr (ft1, 0) 1024 = Some (ft2, 0)"
    using u2 by (simp add: compact_step_def r1 qc qs)
  \<comment> \<open>the other elements: every query is at a rank below 1024\<close>
  have small: "\<forall>v\<in>set [1..1023]. the (vr v) - 1 \<le> 1023"
    unfolding vr_def using rank_dict_1025 by simp
  have i2': "cagg_inv vr 1023 ft2 [0, 1024]" using i2 by simp
  have sub: "set [0, 1024] \<subseteq> set ?arr" "set [1..1023] \<subseteq> set ?arr" by auto
  obtain ft' where s3: "compact_loop vr (ft2, 0) [1..1023] =
      Some (ft', 0 + (positive_difference_sum ([0, 1024] @ [1..1023]) - positive_difference_sum [0, 1024]))"
    using compact_loop_correct [OF rk _ sub small i2', of 0] by auto
  have p2: "positive_difference_sum [0, 1024] = 1024"
    using positive_difference_sum_snoc [of "[0]" 1024] positive_difference_sum_snoc [of "[]" 0]
    by (simp add: positive_difference_sum_Nil)
  have "compact_loop vr (CompactFenwickTree_init, 0) ?arr =
      Some (ft', positive_difference_sum ?arr - 1024)"
    using s1 s2 s3 p2 by simp
  moreover have "1 < length ?arr" by simp
  ultimately show ?thesis
    unfolding vr_def by (simp only: memory_optimized_unfold naive_eq_spec) simp
qed

subsection \<open>The chunked variant\<close>

lemma naive_pair_form:
  "calculate_positive_differences_naive arr =
     (\<Sum>k = 0..<length arr. \<Sum>j = Suc k..<length arr.
        if arr ! j - arr ! k > 0 then arr ! j - arr ! k else 0)"
proof -
  have "calculate_positive_differences_naive arr =
      (\<Sum>j = 0..<length arr. \<Sum>k = 0..<j. if arr ! j > arr ! k then arr ! j - arr ! k else 0)"
    by (simp add: naive_eq_spec positive_difference_sum_def atLeast0LessThan)
  also have "\<dots> = (\<Sum>k = 0..<length arr. \<Sum>j = Suc k..<length arr.
      if arr ! j > arr ! k then arr ! j - arr ! k else 0)"
    using pair_sum_swap [of "\<lambda>k j. if arr ! j > arr ! k then arr ! j - arr ! k else 0" "length arr"]
    by simp
  finally show ?thesis by simp
qed

lemma naive_chunk:
  assumes "i \<le> e" "e \<le> length arr"
  shows "calculate_positive_differences_naive (take (e - i) (drop i arr)) =
     (\<Sum>k = i..<e. \<Sum>j = Suc k..<e. if arr ! j - arr ! k > 0 then arr ! j - arr ! k else 0)"
proof -
  let ?c = "take (e - i) (drop i arr)"
  let ?f = "\<lambda>k j. if arr ! j - arr ! k > 0 then arr ! j - arr ! k else 0"
  have len: "length ?c = e - i" using assms by simp
  have nth: "\<And>k. k < e - i \<Longrightarrow> ?c ! k = arr ! (k + i)" using assms by (simp add: add.commute)
  have "calculate_positive_differences_naive ?c =
      (\<Sum>k = 0..<e - i. \<Sum>j = Suc k..<e - i. if ?c ! j - ?c ! k > 0 then ?c ! j - ?c ! k else 0)"
    by (simp only: naive_pair_form len)
  also have "\<dots> = (\<Sum>k = 0..<e - i. \<Sum>j = Suc k..<e - i. ?f (k + i) (j + i))"
    by (intro sum.cong refl) (use assms in \<open>simp add: add.commute\<close>)
  also have "\<dots> = (\<Sum>k = 0..<e - i. \<Sum>j = Suc (k + i)..<e. ?f (k + i) j)"
  proof (rule sum.cong [OF refl])
    fix k assume "k \<in> {0..<e - i}"
    have "(\<Sum>j = Suc k + i..<(e - i) + i. ?f (k + i) j) = (\<Sum>j = Suc k..<e - i. ?f (k + i) (j + i))"
      by (rule sum.shift_bounds_nat_ivl)
    then show "(\<Sum>j = Suc k..<e - i. ?f (k + i) (j + i)) = (\<Sum>j = Suc (k + i)..<e. ?f (k + i) j)"
      using assms by simp
  qed
  also have "\<dots> = (\<Sum>k = i..<e. \<Sum>j = Suc k..<e. ?f k j)"
    using sum.shift_bounds_nat_ivl [of "\<lambda>k. \<Sum>j = Suc k..<e. ?f k j" 0 i "e - i"] assms
    by simp
  finally show ?thesis .
qed

lemma cross_chunk_fold:
  "foldl (\<lambda>total_sum j.
      foldl (\<lambda>total_sum k.
          if 0 < arr ! j - arr ! k then total_sum + (arr ! j - arr ! k) else total_sum)
        total_sum [i..<e])
    t0 [e..<n] =
   t0 + (\<Sum>k = i..<e. \<Sum>j = e..<n. if arr ! j - arr ! k > (0::int) then arr ! j - arr ! k else 0)"
proof -
  let ?f = "\<lambda>k j. if arr ! j - arr ! k > 0 then arr ! j - arr ! k else 0"
  have inner: "\<And>j. (\<lambda>total_sum k.
        if 0 < arr ! j - arr ! k then total_sum + (arr ! j - arr ! k) else total_sum) =
      (\<lambda>t k. t + ?f k j)"
    by (intro ext) simp
  have "foldl (\<lambda>total_sum j.
      foldl (\<lambda>total_sum k.
          if 0 < arr ! j - arr ! k then total_sum + (arr ! j - arr ! k) else total_sum)
        total_sum [i..<e])
    t0 [e..<n] = foldl (\<lambda>t j. t + (\<Sum>k = i..<e. ?f k j)) t0 [e..<n]"
    by (simp only: inner foldl_add_sum)
  also have "\<dots> = t0 + (\<Sum>j = e..<n. \<Sum>k = i..<e. ?f k j)"
    by (simp only: foldl_add_sum)
  also have "(\<Sum>j = e..<n. \<Sum>k = i..<e. ?f k j) = (\<Sum>k = i..<e. \<Sum>j = e..<n. ?f k j)"
    by (rule sum.swap)
  finally show ?thesis .
qed

declare chunk_loop.simps [simp del]

lemma chunk_loop_correct:
  assumes H: "\<And>i m. m \<le> chunk_size \<Longrightarrow>
      calculate_positive_differences_memory_optimized (take m (drop i arr)) =
        Some (calculate_positive_differences_naive (take m (drop i arr)))"
    and cs: "0 < chunk_size"
  shows "chunk_loop arr chunk_size i tot =
     Some (tot + (\<Sum>k = i..<length arr. \<Sum>j = Suc k..<length arr.
        if arr ! j - arr ! k > 0 then arr ! j - arr ! k else 0))"
proof (induction "length arr - i" arbitrary: i tot rule: less_induct)
  case less
  let ?n = "length arr"
  let ?f = "\<lambda>k j. if arr ! j - arr ! k > 0 then arr ! j - arr ! k else 0"
  show ?case
  proof (cases "i < ?n")
    case False
    then show ?thesis using cs by (subst chunk_loop.simps) simp
  next
    case True
    let ?e = "min (i + chunk_size) ?n"
    let ?c = "take (?e - i) (drop i arr)"
    have ie: "i \<le> ?e" "?e \<le> ?n" "?e - i \<le> chunk_size" using True by simp_all
    have mo: "calculate_positive_differences_memory_optimized ?c =
        Some (\<Sum>k = i..<?e. \<Sum>j = Suc k..<?e. ?f k j)"
      using H [OF ie(3), of i] naive_chunk [OF ie(1,2)] by simp
    have m: "?n - (i + chunk_size) < ?n - i" using True cs by simp
    have step: "chunk_loop arr chunk_size i tot =
        chunk_loop arr chunk_size (i + chunk_size)
          (tot + (\<Sum>k = i..<?e. \<Sum>j = Suc k..<?e. ?f k j) + (\<Sum>k = i..<?e. \<Sum>j = ?e..<?n. ?f k j))"
    proof -
      have cs0: "chunk_size \<noteq> 0" using cs by simp
      show ?thesis
        by (subst chunk_loop.simps)
           (simp only: Let_def cs0 True if_True if_False mo option.case cross_chunk_fold)
    qed
    have ih: "chunk_loop arr chunk_size (i + chunk_size)
          (tot + (\<Sum>k = i..<?e. \<Sum>j = Suc k..<?e. ?f k j) + (\<Sum>k = i..<?e. \<Sum>j = ?e..<?n. ?f k j)) =
        Some (tot + (\<Sum>k = i..<?e. \<Sum>j = Suc k..<?e. ?f k j) + (\<Sum>k = i..<?e. \<Sum>j = ?e..<?n. ?f k j) +
          (\<Sum>k = i + chunk_size..<?n. \<Sum>j = Suc k..<?n. ?f k j))"
      by (rule less.hyps [OF m])
    have tail: "(\<Sum>k = i + chunk_size..<?n. \<Sum>j = Suc k..<?n. ?f k j) =
        (\<Sum>k = ?e..<?n. \<Sum>j = Suc k..<?n. ?f k j)"
    proof (cases "i + chunk_size \<le> ?n")
      case True
      then show ?thesis by (simp add: min_def)
    next
      case False
      then show ?thesis by (simp add: min_def)
    qed
    have row: "\<And>k. k \<in> {i..<?e} \<Longrightarrow>
        (\<Sum>j = Suc k..<?n. ?f k j) = (\<Sum>j = Suc k..<?e. ?f k j) + (\<Sum>j = ?e..<?n. ?f k j)"
    proof -
      fix k assume k: "k \<in> {i..<?e}"
      then have "Suc k \<le> ?e" "?e \<le> ?n" by simp_all
      then show "(\<Sum>j = Suc k..<?n. ?f k j) = (\<Sum>j = Suc k..<?e. ?f k j) + (\<Sum>j = ?e..<?n. ?f k j)"
        by (simp only: sum.atLeastLessThan_concat)
    qed
    have head: "(\<Sum>k = i..<?e. \<Sum>j = Suc k..<?n. ?f k j) =
        (\<Sum>k = i..<?e. \<Sum>j = Suc k..<?e. ?f k j) + (\<Sum>k = i..<?e. \<Sum>j = ?e..<?n. ?f k j)"
      using row by (simp add: sum.distrib [symmetric])
    have whole: "(\<Sum>k = i..<?n. \<Sum>j = Suc k..<?n. ?f k j) =
        (\<Sum>k = i..<?e. \<Sum>j = Suc k..<?n. ?f k j) + (\<Sum>k = ?e..<?n. \<Sum>j = Suc k..<?n. ?f k j)"
      using ie(1,2) by (simp only: sum.atLeastLessThan_concat)
    have "tot + (\<Sum>k = i..<?e. \<Sum>j = Suc k..<?e. ?f k j) + (\<Sum>k = i..<?e. \<Sum>j = ?e..<?n. ?f k j) +
          (\<Sum>k = i + chunk_size..<?n. \<Sum>j = Suc k..<?n. ?f k j) =
        tot + (\<Sum>k = i..<?n. \<Sum>j = Suc k..<?n. ?f k j)"
      using tail head whole by linarith
    then show ?thesis by (simp only: step ih)
  qed
qed

lemma chunked_correct_if:
  assumes H: "\<And>i m. m \<le> nat chunk_size \<Longrightarrow>
      calculate_positive_differences_memory_optimized (take m (drop i arr)) =
        Some (calculate_positive_differences_naive (take m (drop i arr)))"
    and cs: "0 < chunk_size"
  shows "calculate_positive_differences_chunked arr chunk_size =
     Some (calculate_positive_differences_naive arr)"
proof (cases "int (length arr) \<le> chunk_size")
  case True
  then have "take (length arr) (drop 0 arr) = arr" "length arr \<le> nat chunk_size" by simp_all
  then have "calculate_positive_differences_memory_optimized arr =
      Some (calculate_positive_differences_naive arr)"
    using H [of "length arr" 0] by simp
  then show ?thesis using True by (simp add: calculate_positive_differences_chunked_def)
next
  case False
  have cs': "0 < nat chunk_size" using cs by simp
  have "chunk_loop arr (nat chunk_size) 0 0 = Some (calculate_positive_differences_naive arr)"
    using chunk_loop_correct [OF H cs', of 0 0] by (simp add: naive_pair_form)
  then show ?thesis using False cs by (simp add: calculate_positive_differences_chunked_def)
qed

lemma chunked_small:
  assumes "0 < chunk_size" "chunk_size \<le> 1024 \<or> card (set arr) \<le> 1024"
  shows "calculate_positive_differences_chunked arr chunk_size =
     Some (calculate_positive_differences_naive arr)"
proof (rule chunked_correct_if [OF _ assms(1)])
  fix i m assume m: "m \<le> nat chunk_size"
  have "card (set (take m (drop i arr))) \<le> 1024"
  proof (rule disjE [OF assms(2)])
    assume "chunk_size \<le> 1024"
    then have "length (take m (drop i arr)) \<le> 1024" using m by simp
    then show ?thesis using card_length [of "take m (drop i arr)"] by linarith
  next
    assume c: "card (set arr) \<le> 1024"
    have "set (take m (drop i arr)) \<subseteq> set arr"
      using set_take_subset set_drop_subset by fast
    then have "card (set (take m (drop i arr))) \<le> card (set arr)"
      by (intro card_mono) simp_all
    then show ?thesis using c by simp
  qed
  then show "calculate_positive_differences_memory_optimized (take m (drop i arr)) =
      Some (calculate_positive_differences_naive (take m (drop i arr)))"
    by (rule memory_optimized_small)
qed

subsection \<open>The value of the naive sum on the sequence of 1025 distinct values\<close>

lemma sum_upto_diff:
  "0 \<le> j \<Longrightarrow> 2 * (\<Sum>x\<leftarrow>[1..j]. m - x) = 2 * j * m - j * (j + 1)"
proof (induction j rule: int_ge_induct)
  case base
  then show ?case by simp
next
  case (step j)
  have "[1..j + 1] = [1..j] @ [j + 1]" using step.hyps by (simp add: upto_rec2)
  then have "(\<Sum>x\<leftarrow>[1..j + 1]. m - x) = (\<Sum>x\<leftarrow>[1..j]. m - x) + (m - (j + 1))" by simp
  then show ?case using step.IH by (simp add: algebra_simps)
qed

lemma spec_sum_1025_prefix:
  "0 \<le> m \<Longrightarrow> m \<le> 1023 \<Longrightarrow>
     6 * positive_difference_sum (0 # 1024 # [1..m]) = 6144 + m * (m + 1) * (m + 2)"
proof (induction m rule: int_ge_induct)
  case base
  have "positive_difference_sum [0, 1024] = 1024"
    using positive_difference_sum_snoc [of "[0]" 1024] positive_difference_sum_snoc [of "[]" 0]
    by (simp add: positive_difference_sum_Nil)
  then show ?case by simp
next
  case (step m)
  have up: "[1..m + 1] = [1..m] @ [m + 1]" using step.hyps by (simp add: upto_rec2)
  have "(\<Sum>x\<leftarrow>[1..m]. if m + 1 > x then m + 1 - x else 0) = (\<Sum>x\<leftarrow>[1..m]. m + 1 - x)"
    by (rule arg_cong [where f = sum_list], rule map_cong [OF refl]) simp
  then have row: "(\<Sum>x\<leftarrow>0 # 1024 # [1..m]. if m + 1 > x then m + 1 - x else 0) =
      (m + 1) + (\<Sum>x\<leftarrow>[1..m]. m + 1 - x)"
    using step.hyps step.prems by simp
  have "positive_difference_sum (0 # 1024 # [1..m + 1]) =
      positive_difference_sum ((0 # 1024 # [1..m]) @ [m + 1])"
    by (simp only: up append_Cons)
  also have "\<dots> = positive_difference_sum (0 # 1024 # [1..m]) + ((m + 1) + (\<Sum>x\<leftarrow>[1..m]. m + 1 - x))"
    by (simp only: positive_difference_sum_snoc row)
  finally have "6 * positive_difference_sum (0 # 1024 # [1..m + 1]) =
      6 * positive_difference_sum (0 # 1024 # [1..m]) + 6 * (m + 1) + 3 * (2 * (\<Sum>x\<leftarrow>[1..m]. m + 1 - x))"
    by simp
  also have "\<dots> = 6144 + m * (m + 1) * (m + 2) + 6 * (m + 1) + 3 * (2 * m * (m + 1) - m * (m + 1))"
    using step.IH step.prems sum_upto_diff [OF step.hyps, of "m + 1"] by simp
  finally show ?case by (simp add: algebra_simps)
qed

lemma naive_1025: "calculate_positive_differences_naive (0 # 1024 # [1..1023]) = 178957824"
  using spec_sum_1025_prefix [of 1023] by (simp add: naive_eq_spec)

text \<open>
  C1: the array-backed \<open>calculate_positive_differences_optimized\<close> returns the naive
  sum on every sequence, and the dictionary-backed
  \<open>calculate_positive_differences_memory_optimized\<close> does on every sequence with at
  most 1024 distinct values (lemmas \<open>optimized_refines_naive\<close> and
  \<open>memory_optimized_small\<close>). On the 1025 distinct values 0, 1024, 1, 2, ..., 1023 the
  dictionary-backed function returns 178956800, and the naive reference and the
  array-backed function return 178957824: the first insertion, at rank 1 with
  \<open>max_idx = 1\<close>, stops at the cell 512, so the query at rank 1024 for the second
  element misses it.
\<close>

theorem memory_optimized_diverges:
  "calculate_positive_differences_naive (0 # 1024 # [1..1023]) = 178957824 \<and>
   calculate_positive_differences_optimized (0 # 1024 # [1..1023]) = Some 178957824 \<and>
   calculate_positive_differences_memory_optimized (0 # 1024 # [1..1023]) = Some 178956800"
  using naive_1025 by (simp only: optimized_refines_naive memory_optimized_1025) simp

text \<open>
  C10: the chunked variant returns the naive sum whenever the chunk size is positive and
  at most 1024, or the sequence has at most 1024 distinct values (lemma
  \<open>chunked_small\<close>). With the default chunk size 50000 and the 1025 distinct values
  0, 1024, 1, 2, ..., 1023 it hands the whole sequence to
  \<open>calculate_positive_differences_memory_optimized\<close> and returns 178956800, not the
  naive 178957824.
\<close>

theorem chunked_diverges:
  "calculate_positive_differences_chunked (0 # 1024 # [1..1023]) 50000 = Some 178956800 \<and>
   calculate_positive_differences_naive (0 # 1024 # [1..1023]) = 178957824"
proof -
  have "int (length (0 # 1024 # [1..1023])) \<le> 50000" by simp
  then have "calculate_positive_differences_chunked (0 # 1024 # [1..1023]) 50000 =
      calculate_positive_differences_memory_optimized (0 # 1024 # [1..1023])"
    by (simp only: calculate_positive_differences_chunked_def Let_def if_True)
  then show ?thesis using naive_1025 by (simp only: memory_optimized_1025) simp
qed

subsection \<open>Prefix queries of the other two trees\<close>

lemma query_tree_loop_pair:
  "query_tree_loop ft q acc =
     do {
       c \<leftarrow> query_loop (count_tree ft) q (fst acc);
       s \<leftarrow> query_loop (sum_tree ft) q (snd acc);
       Some (c, s)
     }"
  if "dense_inv n ft a b" "0 \<le> q" "q \<le> n"
  using that(2,3)
proof (induction "nat q" arbitrary: q acc rule: less_induct)
  case less
  show ?case
  proof (cases "q = 0")
    case True
    then show ?thesis
      by (subst query_tree_loop.simps) (simp add: query_loop_zero)
  next
    case False
    then have q: "0 < q" using less.prems by simp
    have l: "0 < lowbit q" "lowbit q \<le> q" using lowbit_pos [OF q] by simp_all
    have gc: "list_get (count_tree ft) q = Some (count_tree ft ! nat q)"
      using q less.prems that(1) by (simp add: list_get_def list_index_def dense_inv_def)
    have gs: "list_get (sum_tree ft) q = Some (sum_tree ft ! nat q)"
      using q less.prems that(1) by (simp add: list_get_def list_index_def dense_inv_def)
    have ih: "query_tree_loop ft (q - lowbit q) (fst acc + count_tree ft ! nat q, snd acc + sum_tree ft ! nat q) =
        do {
          c \<leftarrow> query_loop (count_tree ft) (q - lowbit q) (fst acc + count_tree ft ! nat q);
          s \<leftarrow> query_loop (sum_tree ft) (q - lowbit q) (snd acc + sum_tree ft ! nat q);
          Some (c, s)
        }"
      using less.hyps [of "q - lowbit q"] l q less.prems by simp
    have a: "query_tree_loop ft q acc =
        query_tree_loop ft (q - lowbit q) (fst acc + count_tree ft ! nat q, snd acc + sum_tree ft ! nat q)"
      by (subst query_tree_loop.simps) (simp add: q gc gs)
    have b: "query_loop (count_tree ft) q (fst acc) =
        query_loop (count_tree ft) (q - lowbit q) (fst acc + count_tree ft ! nat q)"
      by (subst query_loop.simps) (simp add: q gc)
    have c: "query_loop (sum_tree ft) q (snd acc) =
        query_loop (sum_tree ft) (q - lowbit q) (snd acc + sum_tree ft ! nat q)"
      by (subst query_loop.simps) (simp add: q gs)
    show ?thesis by (simp only: a b c ih)
  qed
qed

lemma query_tree_correct:
  assumes "dense_inv n ft a b" "0 \<le> q" "q \<le> n"
  shows "query_tree ft q = Some (\<Sum>i\<in>{0<..q}. a i, \<Sum>i\<in>{0<..q}. b i)"
  using query_tree_loop_pair [OF assms, of "(0, 0)"] FenwickTree_query_correct [OF assms]
  by (simp add: query_tree_def FenwickTree_query_count_def FenwickTree_query_sum_def)

lemma query_tree_prefix_exact:
  assumes "0 \<le> k" "\<forall>p\<in>set ps. 1 \<le> fst p \<and> fst p \<le> k" "0 \<le> r" "r \<le> k"
  shows "\<exists>ft. FenwickTree_inserts (FenwickTree_init k) ps = Some ft \<and>
     query_tree ft r = Some (int (length (filter (\<lambda>p. fst p \<le> r) ps)),
       \<Sum>p\<leftarrow>filter (\<lambda>p. fst p \<le> r) ps. snd p)"
proof -
  obtain ft where ft: "FenwickTree_inserts (FenwickTree_init k) ps = Some ft"
     "FenwickTree_query_count ft r = Some (int (length (filter (\<lambda>p. fst p \<le> r) ps)))"
     "FenwickTree_query_sum ft r = Some (\<Sum>p\<leftarrow>filter (\<lambda>p. fst p \<le> r) ps. snd p)"
    using FenwickTree_prefix_exact [OF assms] by blast
  have pos: "\<forall>p\<in>set ps. 1 \<le> fst p" using assms(2) by blast
  have i0: "dense_inv k (FenwickTree_init k) (bucket (\<lambda>_. 1) (\<lambda>p. Some (fst p)) [])
      (bucket snd (\<lambda>p. Some (fst p)) ([] :: (int \<times> int) list))"
    using FenwickTree_init_inv [OF assms(1)] by (simp add: bucket_Nil)
  obtain ft' where "FenwickTree_inserts (FenwickTree_init k) ps = Some ft'"
    and d: "dense_inv k ft' (bucket (\<lambda>_. 1) (\<lambda>p. Some (fst p)) ps) (bucket snd (\<lambda>p. Some (fst p)) ps)"
    using FenwickTree_inserts_correct [OF i0 pos] by auto
  then have d': "dense_inv k ft (bucket (\<lambda>_. 1) (\<lambda>p. Some (fst p)) ps) (bucket snd (\<lambda>p. Some (fst p)) ps)"
    using ft(1) by simp
  have "query_tree ft r = FenwickTree_query_count ft r \<bind>
      (\<lambda>c. FenwickTree_query_sum ft r \<bind> (\<lambda>s. Some (c, s)))"
    using query_tree_loop_pair [OF d' assms(3,4), of "(0, 0)"]
    by (simp add: query_tree_def FenwickTree_query_count_def FenwickTree_query_sum_def)
  then show ?thesis using ft by simp
qed

lemma CompactFenwickTree_inserts_correct:
  "fen_inv B (count_tree_c ft) (bucket (\<lambda>_. 1) (\<lambda>p. Some (fst p)) qs) \<Longrightarrow>
   fen_inv B (sum_tree_c ft) (bucket snd (\<lambda>p. Some (fst p)) qs) \<Longrightarrow>
   \<forall>p\<in>set ps. 1 \<le> fst p \<Longrightarrow> B \<le> 1023 \<Longrightarrow>
   \<exists>ft'. CompactFenwickTree_inserts ft ps = Some ft' \<and>
     fen_inv B (count_tree_c ft') (bucket (\<lambda>_. 1) (\<lambda>p. Some (fst p)) (qs @ ps)) \<and>
     fen_inv B (sum_tree_c ft') (bucket snd (\<lambda>p. Some (fst p)) (qs @ ps))"
proof (induction ps arbitrary: ft qs)
  case Nil
  then show ?case by simp
next
  case (Cons p ps)
  obtain r v where p: "p = (r, v)" by (cases p)
  have r: "0 < r" using Cons.prems(3) p by simp
  obtain ft1 where u: "CompactFenwickTree_update ft r v = Some ft1"
    and d1: "fen_inv B (count_tree_c ft1)
        ((bucket (\<lambda>_. 1) (\<lambda>p. Some (fst p)) qs)(r := bucket (\<lambda>_. 1) (\<lambda>p. Some (fst p)) qs r + 1))"
    and d2: "fen_inv B (sum_tree_c ft1)
        ((bucket snd (\<lambda>p. Some (fst p)) qs)(r := bucket snd (\<lambda>p. Some (fst p)) qs r + v))"
    using CompactFenwickTree_update_correct [OF Cons.prems(1,2) r Cons.prems(4), of v] by blast
  have d1': "fen_inv B (count_tree_c ft1) (bucket (\<lambda>_. 1) (\<lambda>p. Some (fst p)) (qs @ [p]))"
    using d1 p by (simp add: bucket_snoc [where r = r])
  have d2': "fen_inv B (sum_tree_c ft1) (bucket snd (\<lambda>p. Some (fst p)) (qs @ [p]))"
    using d2 p by (simp add: bucket_snoc [where r = r])
  have "\<exists>ft'. CompactFenwickTree_inserts ft1 ps = Some ft' \<and>
     fen_inv B (count_tree_c ft') (bucket (\<lambda>_. 1) (\<lambda>p. Some (fst p)) ((qs @ [p]) @ ps)) \<and>
     fen_inv B (sum_tree_c ft') (bucket snd (\<lambda>p. Some (fst p)) ((qs @ [p]) @ ps))"
    using Cons.IH [OF d1' d2'] Cons.prems(3,4) by simp
  then show ?case using u p by simp
qed

lemma CompactFenwickTree_prefix_exact:
  assumes "\<forall>p\<in>set ps. 1 \<le> fst p" "0 \<le> r" "r \<le> 1023"
  shows "\<exists>ft. CompactFenwickTree_inserts CompactFenwickTree_init ps = Some ft \<and>
     CompactFenwickTree_query_count ft r = Some (int (length (filter (\<lambda>p. fst p \<le> r) ps))) \<and>
     CompactFenwickTree_query_sum ft r = Some (\<Sum>p\<leftarrow>filter (\<lambda>p. fst p \<le> r) ps. snd p)"
proof -
  have i1: "fen_inv 1023 (count_tree_c CompactFenwickTree_init)
      (bucket (\<lambda>_. 1) (\<lambda>p. Some (fst p)) ([] :: (int \<times> int) list))"
    and i2: "fen_inv 1023 (sum_tree_c CompactFenwickTree_init)
      (bucket snd (\<lambda>p. Some (fst p)) ([] :: (int \<times> int) list))"
    by (simp_all add: CompactFenwickTree_init_def fen_inv_def bucket_Nil)
  obtain ft where ins: "CompactFenwickTree_inserts CompactFenwickTree_init ps = Some ft"
    and d1: "fen_inv 1023 (count_tree_c ft) (bucket (\<lambda>_. 1) (\<lambda>p. Some (fst p)) ps)"
    and d2: "fen_inv 1023 (sum_tree_c ft) (bucket snd (\<lambda>p. Some (fst p)) ps)"
    using CompactFenwickTree_inserts_correct [OF i1 i2 assms(1)] by auto
  have c1: "(\<Sum>p\<leftarrow>ps. if 0 < fst p \<and> fst p \<le> r then 1 else 0) =
      int (length (filter (\<lambda>p. fst p \<le> r) ps))"
    using assms(1) by (induction ps) auto
  have c2: "(\<Sum>p\<leftarrow>ps. if 0 < fst p \<and> fst p \<le> r then snd p else 0) =
      (\<Sum>p\<leftarrow>filter (\<lambda>p. fst p \<le> r) ps. snd p)"
    using assms(1) by (induction ps) auto
  show ?thesis
    using ins compact_query_loop_correct [OF d1 assms(2,3), of 0]
      compact_query_loop_correct [OF d2 assms(2,3), of 0] c1 c2
    by (simp add: bucket_prefix_fst CompactFenwickTree_query_count_def
        CompactFenwickTree_query_sum_def)
qed

text \<open>
  C2: after any insertions at ranks in \<open>1..k\<close>, the array-backed tree answers every
  prefix query at \<open>r\<close> in \<open>0..k\<close> with the exact count and sum of the pairs of rank at
  most \<open>r\<close> (lemmas \<open>FenwickTree_prefix_exact\<close> and \<open>query_tree_prefix_exact\<close>), and
  the dictionary-backed tree does for the queries at ranks up to 1023 (lemma
  \<open>CompactFenwickTree_prefix_exact\<close>). At rank 1024 it does not: after the single insertion
  of the value 5 at rank 1 into a new tree, the prefix queries at 1024 return count 0 and
  sum 0 where one pair of value 5 has rank at most 1024, while the queries at 1023
  return 1 and 5.
\<close>

theorem compact_prefix_misses:
  "CompactFenwickTree_update CompactFenwickTree_init 1 5 \<bind>
     (\<lambda>ft. CompactFenwickTree_query_count ft 1024) = Some 0 \<and>
   CompactFenwickTree_update CompactFenwickTree_init 1 5 \<bind>
     (\<lambda>ft. CompactFenwickTree_query_sum ft 1024) = Some 0 \<and>
   CompactFenwickTree_update CompactFenwickTree_init 1 5 \<bind>
     (\<lambda>ft. CompactFenwickTree_query_count ft 1023) = Some 1 \<and>
   CompactFenwickTree_update CompactFenwickTree_init 1 5 \<bind>
     (\<lambda>ft. CompactFenwickTree_query_sum ft 1023) = Some 5"
  by code_simp

end
